theory Spec2Isabelle
  imports Main
begin

unbundle bit_operations_syntax

section \<open>Board constants (src/src/board.js)\<close>

text \<open>
  Piece codes, colours and castling flags are small non-negative JavaScript numbers that
  the source combines with the bitwise operators; they are modelled as integers with the
  bitwise operations of HOL. Only the remainder and the floor division of non-negative
  numbers occur in the source, so \<open>mod\<close> and \<open>div\<close> are the source's \<open>%\<close> and
  \<open>Math.floor(_ / 8)\<close>.
\<close>

abbreviation (input) EMPTY :: int where "EMPTY \<equiv> 0"
abbreviation (input) PAWN :: int where "PAWN \<equiv> 1"
abbreviation (input) KNIGHT :: int where "KNIGHT \<equiv> 2"
abbreviation (input) BISHOP :: int where "BISHOP \<equiv> 3"
abbreviation (input) ROOK :: int where "ROOK \<equiv> 4"
abbreviation (input) QUEEN :: int where "QUEEN \<equiv> 5"
abbreviation (input) KING :: int where "KING \<equiv> 6"

abbreviation (input) WHITE :: int where "WHITE \<equiv> 8"
abbreviation (input) BLACK :: int where "BLACK \<equiv> 16"

abbreviation (input) PIECE_MASK :: int where "PIECE_MASK \<equiv> 7"
abbreviation (input) COLOR_MASK :: int where "COLOR_MASK \<equiv> 24"

abbreviation (input) CASTLE_WHITE_KINGSIDE :: int where "CASTLE_WHITE_KINGSIDE \<equiv> 1"
abbreviation (input) CASTLE_WHITE_QUEENSIDE :: int where "CASTLE_WHITE_QUEENSIDE \<equiv> 2"
abbreviation (input) CASTLE_BLACK_KINGSIDE :: int where "CASTLE_BLACK_KINGSIDE \<equiv> 4"
abbreviation (input) CASTLE_BLACK_QUEENSIDE :: int where "CASTLE_BLACK_QUEENSIDE \<equiv> 8"

definition KNIGHT_MOVES :: "int list" where
  "KNIGHT_MOVES = [15, 17, 10, 6, -6, -10, -15, -17]"

definition BISHOP_DIRECTIONS :: "int list" where
  "BISHOP_DIRECTIONS = [9, 7, -7, -9]"

definition ROOK_DIRECTIONS :: "int list" where
  "ROOK_DIRECTIONS = [8, 1, -8, -1]"

definition QUEEN_DIRECTIONS :: "int list" where
  "QUEEN_DIRECTIONS = BISHOP_DIRECTIONS @ ROOK_DIRECTIONS"

section \<open>Moves and the board\<close>

text \<open>
  A move object of \<open>createMove\<close>. The fields \<open>from\<close> and \<open>to\<close> of the source are
  \<open>from_sq\<close> and \<open>to_sq\<close>; the three saved fields carry the prefix \<open>saved_\<close>.
\<close>

record move =
  from_sq :: int
  to_sq :: int
  piece :: int
  captured :: int
  promotion :: int
  isEnPassant :: bool
  isCastle :: bool
  saved_castlingRights :: int
  saved_enPassantSquare :: int
  saved_halfMoveClock :: int

text \<open>
  The fields of class \<open>Board\<close>. The array \<open>squares\<close> is a list of 64 piece codes; the
  history stack is a list whose last element is the record pushed last.
\<close>

record board =
  squares :: "int list"
  turn :: int
  castlingRights :: int
  enPassantSquare :: int
  halfMoveClock :: int
  fullMoveNumber :: int
  whiteKingPos :: int
  blackKingPos :: int
  history :: "move list"

definition sq :: "board \<Rightarrow> int \<Rightarrow> int" where
  "sq b s = squares b ! nat s"

definition isSquareOnBoard :: "int \<Rightarrow> bool" where
  "isSquareOnBoard s \<longleftrightarrow> 0 \<le> s \<and> s < 64"

definition initialSquares :: "int list" where
  "initialSquares =
     [12, 10, 11, 13, 14, 11, 10, 12,
      9, 9, 9, 9, 9, 9, 9, 9,
      0, 0, 0, 0, 0, 0, 0, 0,
      0, 0, 0, 0, 0, 0, 0, 0,
      0, 0, 0, 0, 0, 0, 0, 0,
      0, 0, 0, 0, 0, 0, 0, 0,
      17, 17, 17, 17, 17, 17, 17, 17,
      20, 18, 19, 21, 22, 19, 18, 20]"

text \<open>\<open>setupInitialPosition\<close>: every field is overwritten, so the result is a constant.\<close>

definition setupInitialPosition :: board where
  "setupInitialPosition =
     \<lparr>squares = initialSquares, turn = WHITE, castlingRights = 15,
      enPassantSquare = -1, halfMoveClock = 0, fullMoveNumber = 1,
      whiteKingPos = 4, blackKingPos = 60, history = []\<rparr>"

section \<open>Attacked squares\<close>

definition pawnAttacks :: "board \<Rightarrow> int \<Rightarrow> int \<Rightarrow> bool" where
  "pawnAttacks b square attackingColor =
     (let pawnDir = (if attackingColor = WHITE then -8 else 8) in
      list_ex (\<lambda>offset.
          let s = square + offset in
          isSquareOnBoard s \<and> \<bar>square mod 8 - s mod 8\<bar> = 1 \<and>
          sq b s \<noteq> EMPTY \<and> sq b s AND PIECE_MASK = PAWN \<and>
          sq b s AND COLOR_MASK = attackingColor)
        [pawnDir + 1, pawnDir - 1])"

definition knightAttacks :: "board \<Rightarrow> int \<Rightarrow> int \<Rightarrow> bool" where
  "knightAttacks b square attackingColor =
     list_ex (\<lambda>offset.
         let s = square + offset in
         isSquareOnBoard s \<and>
         \<bar>square mod 8 - s mod 8\<bar> \<le> 2 \<and> \<bar>square div 8 - s div 8\<bar> \<le> 2 \<and>
         sq b s \<noteq> EMPTY \<and> sq b s AND PIECE_MASK = KNIGHT \<and>
         sq b s AND COLOR_MASK = attackingColor)
       KNIGHT_MOVES"

text \<open>
  The wrap test of the two sliding loops: the files of the previous and of the current
  square of the ray differ by more than 2 and the direction is not vertical.
\<close>

definition wrapped :: "int \<Rightarrow> int \<Rightarrow> int \<Rightarrow> int \<Rightarrow> bool" where
  "wrapped square steps dir s \<longleftrightarrow>
     \<bar>(square + (steps - 1) * dir) mod 8 - s mod 8\<bar> > 2 \<and>
     (dir = 1 \<or> dir = -1 \<or> dir = 9 \<or> dir = -7 \<or> dir = 7 \<or> dir = -9)"

text \<open>
  The \<open>while\<close> loop of one ray in \<open>isSquareAttacked\<close>, from the state \<open>(s, steps)\<close>.
  The directions of the source are never 0; the guard \<open>dir \<noteq> 0\<close> is what makes the
  walk leave the board.
\<close>

function rayAttacks :: "board \<Rightarrow> int \<Rightarrow> int \<Rightarrow> int \<Rightarrow> int \<Rightarrow> int \<Rightarrow> bool" where
  "rayAttacks b square attackingColor dir s steps =
     (if isSquareOnBoard s \<and> dir \<noteq> 0 then
        if wrapped square steps dir s then False
        else if sq b s \<noteq> EMPTY then
          sq b s AND COLOR_MASK = attackingColor \<and>
          (sq b s AND PIECE_MASK = QUEEN \<or>
           (sq b s AND PIECE_MASK = BISHOP \<and> dir \<in> set BISHOP_DIRECTIONS) \<or>
           (sq b s AND PIECE_MASK = ROOK \<and> dir \<in> set ROOK_DIRECTIONS))
        else rayAttacks b square attackingColor dir (s + dir) (steps + 1)
      else False)"
  by pat_completeness auto
termination
  by (relation "measure (\<lambda>(b, square, c, dir, s, steps).
        if 0 < dir then nat (64 - s) else nat (s + 1))")
     (auto simp: isSquareOnBoard_def)

declare rayAttacks.simps [simp del]

definition sliderAttacks :: "board \<Rightarrow> int \<Rightarrow> int \<Rightarrow> bool" where
  "sliderAttacks b square attackingColor =
     list_ex (\<lambda>dir. rayAttacks b square attackingColor dir (square + dir) 1) QUEEN_DIRECTIONS"

definition kingAttacks :: "board \<Rightarrow> int \<Rightarrow> int \<Rightarrow> bool" where
  "kingAttacks b square attackingColor =
     list_ex (\<lambda>dir.
         let s = square + dir in
         isSquareOnBoard s \<and>
         (\<bar>square mod 8 - s mod 8\<bar> \<le> 1 \<or> dir = 8 \<or> dir = -8) \<and>
         sq b s \<noteq> EMPTY \<and> sq b s AND PIECE_MASK = KING \<and>
         sq b s AND COLOR_MASK = attackingColor)
       QUEEN_DIRECTIONS"

definition isSquareAttacked :: "board \<Rightarrow> int \<Rightarrow> int \<Rightarrow> bool" where
  "isSquareAttacked b square attackingColor \<longleftrightarrow>
     pawnAttacks b square attackingColor \<or> knightAttacks b square attackingColor \<or>
     sliderAttacks b square attackingColor \<or> kingAttacks b square attackingColor"

definition isInCheck :: "board \<Rightarrow> int \<Rightarrow> bool" where
  "isInCheck b color =
     isSquareAttacked b (if color = WHITE then whiteKingPos b else blackKingPos b)
       (if color = WHITE then BLACK else WHITE)"

section \<open>Making and unmaking moves\<close>

text \<open>
  The clocks are JavaScript numbers, that is doubles; an integer field of the model stands
  for the double of that value. \<open>++\<close> and \<open>--\<close> add and subtract one and round the
  exact result to the nearest double, a tie going to the double with the even
  significand. Every integer up to \<open>2\<^sup>5\<^sup>3\<close> in magnitude is a double; above that the
  doubles are the multiples of the power of two that leaves 53 significant bits.
\<close>

function excessBits :: "int \<Rightarrow> nat" where
  "excessBits n = (if n < 9007199254740992 then 0 else Suc (excessBits (n div 2)))"
  by pat_completeness auto
termination
  by (relation "measure nat") auto

declare excessBits.simps [simp del]

definition roundToDouble :: "int \<Rightarrow> int" where
  "roundToDouble x =
     (if \<bar>x\<bar> \<le> 9007199254740992 then x
      else
        let n = \<bar>x\<bar>; u = 2 ^ excessBits n; q = n div u; r = n mod u;
            q' = (if u < 2 * r \<or> (2 * r = u \<and> q mod 2 = 1) then q + 1 else q)
        in sgn x * (q' * u))"

text \<open>The integers on which \<open>++\<close> and \<open>--\<close> are exact (\<open>Number.isSafeInteger\<close>).\<close>

definition isSafeInteger :: "int \<Rightarrow> bool" where
  "isSafeInteger x \<longleftrightarrow> \<bar>x\<bar> \<le> 9007199254740991"

definition createMove :: "board \<Rightarrow> int \<Rightarrow> int \<Rightarrow> int \<Rightarrow> bool \<Rightarrow> bool \<Rightarrow> move" where
  "createMove b f t promo ep castle =
     \<lparr>from_sq = f, to_sq = t, piece = sq b f,
      captured = (if ep then PAWN OR (if turn b = WHITE then BLACK else WHITE) else sq b t),
      promotion = promo, isEnPassant = ep, isCastle = castle,
      saved_castlingRights = castlingRights b,
      saved_enPassantSquare = enPassantSquare b,
      saved_halfMoveClock = halfMoveClock b\<rparr>"

definition updateCastlingRights :: "int \<Rightarrow> int \<Rightarrow> int \<Rightarrow> int" where
  "updateCastlingRights cr f t =
     (let cr1 = (if f = 4 then cr AND NOT (CASTLE_WHITE_KINGSIDE OR CASTLE_WHITE_QUEENSIDE)
                 else if f = 60 then cr AND NOT (CASTLE_BLACK_KINGSIDE OR CASTLE_BLACK_QUEENSIDE)
                 else cr)
      in if f = 0 \<or> t = 0 then cr1 AND NOT CASTLE_WHITE_QUEENSIDE
         else if f = 7 \<or> t = 7 then cr1 AND NOT CASTLE_WHITE_KINGSIDE
         else if f = 56 \<or> t = 56 then cr1 AND NOT CASTLE_BLACK_QUEENSIDE
         else if f = 63 \<or> t = 63 then cr1 AND NOT CASTLE_BLACK_KINGSIDE
         else cr1)"

text \<open>The rook's part of a castling move, by the king's destination.\<close>

definition castleRook :: "int list \<Rightarrow> int \<Rightarrow> int list" where
  "castleRook s t =
     (if t = 6 then (s[5 := s ! 7])[7 := EMPTY]
      else if t = 2 then (s[3 := s ! 0])[0 := EMPTY]
      else if t = 62 then (s[61 := s ! 63])[63 := EMPTY]
      else if t = 58 then (s[59 := s ! 56])[56 := EMPTY]
      else s)"

definition makeMove :: "board \<Rightarrow> move \<Rightarrow> board" where
  "makeMove b m =
     (let f = from_sq m; t = to_sq m;
          pieceType = piece m AND PIECE_MASK;
          us = turn b;
          them = (if us = WHITE then BLACK else WHITE);
          s1 = (squares b)[nat f := EMPTY];
          s2 = s1[nat t := (if promotion m \<noteq> EMPTY then promotion m OR us else piece m)];
          s3 = (if isEnPassant m then s2[nat (t - (if us = WHITE then 8 else -8)) := EMPTY]
                else s2);
          s4 = (if isCastle m then castleRook s3 t else s3)
      in \<lparr>squares = s4,
          turn = them,
          castlingRights = updateCastlingRights (castlingRights b) f t,
          enPassantSquare =
            (if pieceType = PAWN \<and> \<bar>t - f\<bar> = 16
             then f + (if us = WHITE then 8 else -8) else -1),
          halfMoveClock =
            (if pieceType = PAWN \<or> captured m \<noteq> EMPTY then 0
             else roundToDouble (halfMoveClock b + 1)),
          fullMoveNumber =
            (if us = BLACK then roundToDouble (fullMoveNumber b + 1) else fullMoveNumber b),
          whiteKingPos = (if pieceType = KING \<and> us = WHITE then t else whiteKingPos b),
          blackKingPos = (if pieceType = KING \<and> us \<noteq> WHITE then t else blackKingPos b),
          history = history b @ [m]\<rparr>)"

text \<open>The rook's way back when a castling move is unmade.\<close>

definition uncastleRook :: "int list \<Rightarrow> int \<Rightarrow> int list" where
  "uncastleRook s t =
     (if t = 6 then (s[7 := s ! 5])[5 := EMPTY]
      else if t = 2 then (s[0 := s ! 3])[3 := EMPTY]
      else if t = 62 then (s[63 := s ! 61])[61 := EMPTY]
      else if t = 58 then (s[56 := s ! 59])[59 := EMPTY]
      else s)"

text \<open>
  \<open>undoMove\<close> returns the popped record, or \<open>null\<close> (here \<open>None\<close>) when the history is
  empty, together with the board it leaves.
\<close>

definition undoMove :: "board \<Rightarrow> move option \<times> board" where
  "undoMove b =
     (if length (history b) = 0 then (None, b)
      else
        let m = last (history b);
            f = from_sq m; t = to_sq m;
            trn = (if turn b = WHITE then BLACK else WHITE);
            s1 = (squares b)[nat f := piece m];
            s2 = (if promotion m \<noteq> EMPTY then s1[nat t := captured m]
                  else if isEnPassant m then
                    (s1[nat t := EMPTY])
                      [nat (t - (if trn = WHITE then 8 else -8)) :=
                         PAWN OR (if trn = WHITE then BLACK else WHITE)]
                  else s1[nat t := captured m]);
            s3 = (if isCastle m then uncastleRook s2 t else s2)
        in (Some m,
            \<lparr>squares = s3,
             turn = trn,
             castlingRights = saved_castlingRights m,
             enPassantSquare = saved_enPassantSquare m,
             halfMoveClock = saved_halfMoveClock m,
             fullMoveNumber =
               (if trn = BLACK then roundToDouble (fullMoveNumber b - 1)
                else fullMoveNumber b),
             whiteKingPos =
               (if piece m AND PIECE_MASK = KING \<and> trn = WHITE then f else whiteKingPos b),
             blackKingPos =
               (if piece m AND PIECE_MASK = KING \<and> trn \<noteq> WHITE then f else blackKingPos b),
             history = butlast (history b)\<rparr>))"

section \<open>Move generation\<close>

text \<open>
  A pawn's arrival on \<open>t\<close>: the four promotions from the promotion rank, one plain move
  otherwise (the source writes this out for the push and for the capture).
\<close>

definition pawnMovesTo :: "board \<Rightarrow> int \<Rightarrow> int \<Rightarrow> move list" where
  "pawnMovesTo b square t =
     (let promotionRank = (if turn b = WHITE then 6 else 1) in
      if square div 8 = promotionRank
      then [createMove b square t QUEEN False False,
            createMove b square t ROOK False False,
            createMove b square t BISHOP False False,
            createMove b square t KNIGHT False False]
      else [createMove b square t EMPTY False False])"

text \<open>The single and the double push.\<close>

definition pawnPushes :: "board \<Rightarrow> int \<Rightarrow> move list" where
  "pawnPushes b square =
     (let direction = (if turn b = WHITE then 8 else - 8);
          startRank = (if turn b = WHITE then 1 else 6);
          t = square + direction
      in if isSquareOnBoard t \<and> sq b t = EMPTY then
           pawnMovesTo b square t @
           (if square div 8 = startRank then
              (let t2 = square + 2 * direction in
               if isSquareOnBoard t2 \<and> sq b t2 = EMPTY
               then [createMove b square t2 EMPTY False False] else [])
            else [])
         else [])"

text \<open>The body of the loop over the two capture directions, for the target \<open>t\<close>.\<close>

definition pawnCapturesAt :: "board \<Rightarrow> int \<Rightarrow> int \<Rightarrow> move list" where
  "pawnCapturesAt b square t =
     (let them = (if turn b = WHITE then BLACK else WHITE) in
      if isSquareOnBoard t \<and> \<bar>square mod 8 - t mod 8\<bar> = 1 then
        (if sq b t \<noteq> EMPTY \<and> sq b t AND COLOR_MASK = them
         then pawnMovesTo b square t else []) @
        (if t = enPassantSquare b then [createMove b square t EMPTY True False] else [])
      else [])"

definition generatePawnMoves :: "board \<Rightarrow> int \<Rightarrow> move list" where
  "generatePawnMoves b square =
     (let direction = (if turn b = WHITE then 8 else - 8) in
      pawnPushes b square @
      concat (map (\<lambda>offset. pawnCapturesAt b square (square + offset))
        [direction + 1, direction - 1]))"

definition knightMoveTo :: "board \<Rightarrow> int \<Rightarrow> int \<Rightarrow> move list" where
  "knightMoveTo b square t =
     (if isSquareOnBoard t then
        (if \<bar>square mod 8 - t mod 8\<bar> > 2 \<or> \<bar>square div 8 - t div 8\<bar> > 2 then []
         else if sq b t = EMPTY \<or> sq b t AND COLOR_MASK \<noteq> turn b
              then [createMove b square t EMPTY False False] else [])
      else [])"

definition generateKnightMoves :: "board \<Rightarrow> int \<Rightarrow> move list" where
  "generateKnightMoves b square =
     concat (map (\<lambda>offset. knightMoveTo b square (square + offset)) KNIGHT_MOVES)"

text \<open>
  The \<open>while\<close> loop of one ray in \<open>generateSlidingMoves\<close>, from the state \<open>(t, steps)\<close>,
  with the same guard on the direction as \<open>rayAttacks\<close>.
\<close>

function slideMoves :: "board \<Rightarrow> int \<Rightarrow> int \<Rightarrow> int \<Rightarrow> int \<Rightarrow> move list" where
  "slideMoves b square dir t steps =
     (if isSquareOnBoard t \<and> dir \<noteq> 0 then
        if wrapped square steps dir t then []
        else if sq b t = EMPTY then
          createMove b square t EMPTY False False # slideMoves b square dir (t + dir) (steps + 1)
        else if sq b t AND COLOR_MASK \<noteq> turn b
             then [createMove b square t EMPTY False False] else []
      else [])"
  by pat_completeness auto
termination
  by (relation "measure (\<lambda>(b, square, dir, t, steps).
        if 0 < dir then nat (64 - t) else nat (t + 1))")
     (auto simp: isSquareOnBoard_def)

declare slideMoves.simps [simp del]

definition generateSlidingMoves :: "board \<Rightarrow> int \<Rightarrow> int list \<Rightarrow> move list" where
  "generateSlidingMoves b square directions =
     concat (map (\<lambda>dir. slideMoves b square dir (square + dir) 1) directions)"

definition kingStepTo :: "board \<Rightarrow> int \<Rightarrow> int \<Rightarrow> move list" where
  "kingStepTo b square dir =
     (let t = square + dir in
      if isSquareOnBoard t \<and> (\<bar>square mod 8 - t mod 8\<bar> \<le> 1 \<or> dir = 8 \<or> dir = - 8) \<and>
         (sq b t = EMPTY \<or> sq b t AND COLOR_MASK \<noteq> turn b)
      then [createMove b square t EMPTY False False] else [])"

text \<open>The castling part of \<open>generateKingMoves\<close>; it does not read the king's square.\<close>

definition castlingMoves :: "board \<Rightarrow> move list" where
  "castlingMoves b =
     (let us = turn b in
      if \<not> isInCheck b us then
        (if us = WHITE then
           (if castlingRights b AND CASTLE_WHITE_KINGSIDE \<noteq> 0 \<and>
               sq b 5 = EMPTY \<and> sq b 6 = EMPTY \<and>
               \<not> isSquareAttacked b 5 BLACK \<and> \<not> isSquareAttacked b 6 BLACK
            then [createMove b 4 6 EMPTY False True] else []) @
           (if castlingRights b AND CASTLE_WHITE_QUEENSIDE \<noteq> 0 \<and>
               sq b 3 = EMPTY \<and> sq b 2 = EMPTY \<and> sq b 1 = EMPTY \<and>
               \<not> isSquareAttacked b 3 BLACK \<and> \<not> isSquareAttacked b 2 BLACK
            then [createMove b 4 2 EMPTY False True] else [])
         else
           (if castlingRights b AND CASTLE_BLACK_KINGSIDE \<noteq> 0 \<and>
               sq b 61 = EMPTY \<and> sq b 62 = EMPTY \<and>
               \<not> isSquareAttacked b 61 WHITE \<and> \<not> isSquareAttacked b 62 WHITE
            then [createMove b 60 62 EMPTY False True] else []) @
           (if castlingRights b AND CASTLE_BLACK_QUEENSIDE \<noteq> 0 \<and>
               sq b 59 = EMPTY \<and> sq b 58 = EMPTY \<and> sq b 57 = EMPTY \<and>
               \<not> isSquareAttacked b 59 WHITE \<and> \<not> isSquareAttacked b 58 WHITE
            then [createMove b 60 58 EMPTY False True] else []))
      else [])"

definition generateKingMoves :: "board \<Rightarrow> int \<Rightarrow> move list" where
  "generateKingMoves b square =
     concat (map (kingStepTo b square) QUEEN_DIRECTIONS) @ castlingMoves b"

text \<open>The body of the loop over the 64 squares in \<open>getLegalMoves\<close>.\<close>

definition generateMovesFrom :: "board \<Rightarrow> int \<Rightarrow> move list" where
  "generateMovesFrom b square =
     (let p = sq b square; pieceType = p AND PIECE_MASK in
      if p = EMPTY \<or> p AND COLOR_MASK \<noteq> turn b then []
      else if pieceType = PAWN then generatePawnMoves b square
      else if pieceType = KNIGHT then generateKnightMoves b square
      else if pieceType = BISHOP then generateSlidingMoves b square BISHOP_DIRECTIONS
      else if pieceType = ROOK then generateSlidingMoves b square ROOK_DIRECTIONS
      else if pieceType = QUEEN then generateSlidingMoves b square QUEEN_DIRECTIONS
      else if pieceType = KING then generateKingMoves b square
      else [])"

definition pseudoLegalMoves :: "board \<Rightarrow> move list" where
  "pseudoLegalMoves b = concat (map (generateMovesFrom b) (map int [0..<64]))"

text \<open>
  The filter of \<open>getLegalMoves\<close>: each candidate is made on the board, the check test is
  run, and the move is unmade. The board is threaded through, so the model shows what the
  filter leaves on the board.
\<close>

fun filterLegal :: "int \<Rightarrow> move list \<Rightarrow> board \<Rightarrow> move list \<times> board" where
  "filterLegal us [] b = ([], b)"
| "filterLegal us (m # ms) b =
     (let b1 = makeMove b m;
          inCheck = isInCheck b1 us;
          b2 = snd (undoMove b1);
          r = filterLegal us ms b2
      in (if inCheck then fst r else m # fst r, snd r))"

definition getLegalMoves :: "board \<Rightarrow> move list \<times> board" where
  "getLegalMoves b = filterLegal (turn b) (pseudoLegalMoves b) b"

section \<open>Null moves (src/src/engine1.js)\<close>

text \<open>
  The engine owns one board; its methods are modelled as functions of that board.
\<close>

definition makeNullMove :: "board \<Rightarrow> board" where
  "makeNullMove b =
     b\<lparr>turn := (if turn b = WHITE then BLACK else WHITE), enPassantSquare := -1\<rparr>"

definition undoNullMove :: "board \<Rightarrow> board" where
  "undoNullMove b = b\<lparr>turn := (if turn b = WHITE then BLACK else WHITE)\<rparr>"

definition hasNonPawnMaterial :: "board \<Rightarrow> bool" where
  "hasNonPawnMaterial b =
     list_ex (\<lambda>square.
         sq b square \<noteq> EMPTY \<and> sq b square AND COLOR_MASK = turn b \<and>
         sq b square AND PIECE_MASK \<noteq> PAWN \<and> sq b square AND PIECE_MASK \<noteq> KING)
       (map int [0..<64])"

text \<open>The guard of the null-move probe in \<open>alphaBeta\<close>.\<close>

definition nullMoveProbeFires :: "int \<Rightarrow> board \<Rightarrow> bool" where
  "nullMoveProbeFires depth b \<longleftrightarrow>
     depth \<ge> 3 \<and> \<not> isInCheck b (turn b) \<and> hasNonPawnMaterial b"

section \<open>Example positions\<close>

text \<open>The position after 1. e2e4 from the initial position.\<close>

definition afterE4 :: board where
  "afterE4 = makeMove setupInitialPosition
     (createMove setupInitialPosition 12 28 EMPTY False False)"

text \<open>
  The position \<open>r3k2r/8/8/8/8/8/8/R3K2R w KQkq - 0 1\<close>: kings and rooks on their home
  squares, all four castling rights.
\<close>

definition rooksAndKings :: board where
  "rooksAndKings =
     \<lparr>squares =
        [12, 0, 0, 0, 14, 0, 0, 12,
         0, 0, 0, 0, 0, 0, 0, 0,
         0, 0, 0, 0, 0, 0, 0, 0,
         0, 0, 0, 0, 0, 0, 0, 0,
         0, 0, 0, 0, 0, 0, 0, 0,
         0, 0, 0, 0, 0, 0, 0, 0,
         0, 0, 0, 0, 0, 0, 0, 0,
         20, 0, 0, 0, 22, 0, 0, 20],
      turn = WHITE, castlingRights = 15, enPassantSquare = -1, halfMoveClock = 0,
      fullMoveNumber = 1, whiteKingPos = 4, blackKingPos = 60, history = []\<rparr>"



section \<open>The move loop of alphaBeta and the stored flag\<close>

abbreviation (input) INFINITY :: int where "INFINITY \<equiv> 30000"

datatype tt_flag = TT_EXACT | TT_ALPHA | TT_BETA

text \<open>
  The loop over the ordered moves in \<open>alphaBeta\<close>. What the recursive searches of one
  iteration return (the reduced search, its re-search, or the normal search, negated) is
  the parameter \<open>child\<close>: it reads the move, the current \<open>alpha\<close> and the engine's state
  and returns the score with the new state; \<open>aborted\<close> reads the flag \<open>searchAborted\<close>.
  The loop returns \<open>None\<close> where the source returns 0 on a time-out, without storing
  anything, and otherwise the final \<open>alpha\<close>, \<open>bestScore\<close>, \<open>bestMove\<close> and state.
\<close>

fun moveLoop ::
  "('s \<Rightarrow> move \<Rightarrow> int \<Rightarrow> int \<times> 's) \<Rightarrow> ('s \<Rightarrow> bool) \<Rightarrow> int \<Rightarrow> move list \<Rightarrow>
   int \<Rightarrow> int \<Rightarrow> move option \<Rightarrow> 's \<Rightarrow> (int \<times> int \<times> move option \<times> 's) option" where
  "moveLoop child aborted beta [] alpha bestScore bestMove st =
     Some (alpha, bestScore, bestMove, st)"
| "moveLoop child aborted beta (m # ms) alpha bestScore bestMove st =
     (let r = child st m alpha; score = fst r; st1 = snd r in
      if aborted st1 then None
      else if score > bestScore then
        (if score > alpha then
           (if score \<ge> beta then Some (score, score, Some m, st1)
            else moveLoop child aborted beta ms score score (Some m) st1)
         else moveLoop child aborted beta ms alpha score (Some m) st1)
      else moveLoop child aborted beta ms alpha bestScore bestMove st1)"

text \<open>The flag computed after the loop, from the variables as the loop left them.\<close>

definition ttFlag :: "int \<Rightarrow> int \<Rightarrow> int \<Rightarrow> tt_flag" where
  "ttFlag bestScore alpha beta =
     (if bestScore \<le> alpha then TT_ALPHA
      else if bestScore \<ge> beta then TT_BETA else TT_EXACT)"

text \<open>
  The best score and the flag that \<open>alphaBeta\<close> passes to \<open>transpositionTable.store\<close> for
  a node entered with the window \<open>(alpha, beta)\<close>.
\<close>

definition storedScoreAndFlag ::
  "('s \<Rightarrow> move \<Rightarrow> int \<Rightarrow> int \<times> 's) \<Rightarrow> ('s \<Rightarrow> bool) \<Rightarrow> move list \<Rightarrow>
   int \<Rightarrow> int \<Rightarrow> 's \<Rightarrow> (int \<times> tt_flag) option" where
  "storedScoreAndFlag child aborted moves alpha beta st =
     (case moveLoop child aborted beta moves alpha (- INFINITY) None st of
        None \<Rightarrow> None
      | Some (alpha', bestScore, bestMove, st') \<Rightarrow> Some (bestScore, ttFlag bestScore alpha' beta))"

section \<open>The textual position and the transposition table's key\<close>

text \<open>
  Strings are lists of ASCII characters. \<open>splitOn\<close> is \<open>String.split\<close> with a separator
  of one character, \<open>joinWith\<close> is \<open>Array.join\<close>, \<open>numberToString\<close> is the decimal text
  that string concatenation gives an integer.
\<close>

fun splitOn :: "char \<Rightarrow> string \<Rightarrow> string list" where
  "splitOn c [] = [[]]"
| "splitOn c (x # xs) =
     (if x = c then [] # splitOn c xs
      else (case splitOn c xs of [] \<Rightarrow> [[x]] | w # ws \<Rightarrow> (x # w) # ws))"

fun joinWith :: "string \<Rightarrow> string list \<Rightarrow> string" where
  "joinWith sep [] = []"
| "joinWith sep [x] = x"
| "joinWith sep (x # y # ys) = x @ sep @ joinWith sep (y # ys)"

fun digitsOf :: "nat \<Rightarrow> string" where
  "digitsOf n =
     (if n < 10 then [''0123456789'' ! n]
      else digitsOf (n div 10) @ [''0123456789'' ! (n mod 10)])"

declare digitsOf.simps [simp del]

definition numberToString :: "int \<Rightarrow> string" where
  "numberToString i = (if i < 0 then CHR ''-'' # digitsOf (nat (- i)) else digitsOf (nat i))"

definition pieceToFenChar :: "int \<Rightarrow> char" where
  "pieceToFenChar p =
     (if p = EMPTY then CHR ''.''
      else
        let pieceType = p AND PIECE_MASK; isWhite = (p AND COLOR_MASK = WHITE) in
        if pieceType = PAWN then (if isWhite then CHR ''P'' else CHR ''p'')
        else if pieceType = KNIGHT then (if isWhite then CHR ''N'' else CHR ''n'')
        else if pieceType = BISHOP then (if isWhite then CHR ''B'' else CHR ''b'')
        else if pieceType = ROOK then (if isWhite then CHR ''R'' else CHR ''r'')
        else if pieceType = QUEEN then (if isWhite then CHR ''Q'' else CHR ''q'')
        else if pieceType = KING then (if isWhite then CHR ''K'' else CHR ''k'')
        else CHR ''.'')"

text \<open>
  One rank of the placement field: the pieces of the rank from file a to file h, and the
  count of empty squares not yet written.
\<close>

fun fenRow :: "int list \<Rightarrow> nat \<Rightarrow> string" where
  "fenRow [] emptyCount = (if emptyCount > 0 then numberToString (int emptyCount) else [])"
| "fenRow (p # ps) emptyCount =
     (if p = EMPTY then fenRow ps (emptyCount + 1)
      else (if emptyCount > 0 then numberToString (int emptyCount) else []) @
           pieceToFenChar p # fenRow ps 0)"

definition fenPlacement :: "board \<Rightarrow> string" where
  "fenPlacement b =
     concat (map (\<lambda>rank.
         fenRow (map (\<lambda>file. sq b (rank * 8 + file)) [0, 1, 2, 3, 4, 5, 6, 7]) 0 @
         (if rank > 0 then ''/'' else []))
       [7, 6, 5, 4, 3, 2, 1, 0])"

definition fenColor :: "board \<Rightarrow> string" where
  "fenColor b = (if turn b = WHITE then ''w'' else ''b'')"

definition fenCastling :: "board \<Rightarrow> string" where
  "fenCastling b =
     (let castling =
        (if castlingRights b AND CASTLE_WHITE_KINGSIDE \<noteq> 0 then ''K'' else []) @
        (if castlingRights b AND CASTLE_WHITE_QUEENSIDE \<noteq> 0 then ''Q'' else []) @
        (if castlingRights b AND CASTLE_BLACK_KINGSIDE \<noteq> 0 then ''k'' else []) @
        (if castlingRights b AND CASTLE_BLACK_QUEENSIDE \<noteq> 0 then ''q'' else [])
      in if castling = [] then ''-'' else castling)"

text \<open>
  \<open>FILES[i]\<close> and \<open>RANKS[i]\<close> inside a string concatenation: an index outside the array
  reads \<open>undefined\<close>, which the concatenation writes out. The remainder of JavaScript
  takes the sign of the dividend.
\<close>

definition jsRem :: "int \<Rightarrow> int \<Rightarrow> int" where
  "jsRem a n = sgn a * (\<bar>a\<bar> mod \<bar>n\<bar>)"

definition FILES_text :: "int \<Rightarrow> string" where
  "FILES_text i = (if 0 \<le> i \<and> i < 8 then [''abcdefgh'' ! nat i] else ''undefined'')"

definition RANKS_text :: "int \<Rightarrow> string" where
  "RANKS_text i = (if 0 \<le> i \<and> i < 8 then [''12345678'' ! nat i] else ''undefined'')"

definition fenEnPassant :: "board \<Rightarrow> string" where
  "fenEnPassant b =
     (if enPassantSquare b \<noteq> -1
      then FILES_text (jsRem (enPassantSquare b) 8) @ RANKS_text (enPassantSquare b div 8)
      else ''-'')"

definition toFen :: "board \<Rightarrow> string" where
  "toFen b =
     fenPlacement b @ '' '' @ fenColor b @ '' '' @ fenCastling b @ '' '' @ fenEnPassant b @
     '' '' @ numberToString (halfMoveClock b) @ '' '' @ numberToString (fullMoveNumber b)"

text \<open>The first four fields of the textual form.\<close>

definition fenFields4 :: "board \<Rightarrow> string list" where
  "fenFields4 b = [fenPlacement b, fenColor b, fenCastling b, fenEnPassant b]"

record tt_entry =
  e_depth :: int
  e_value :: int
  e_flag :: tt_flag
  e_bestMove :: "move option"
  e_age :: int

text \<open>
  The \<open>Map\<close> of the table is an association list in insertion order, which is the order
  in which \<open>clear\<close> sees the entries.
\<close>

record transpositionTable =
  table :: "(string \<times> tt_entry) list"
  maxSize :: int

definition ttKey :: "string \<Rightarrow> string" where
  "ttKey fen = joinWith '' '' (take 4 (splitOn CHR '' '' fen))"

fun mapSet :: "(string \<times> tt_entry) list \<Rightarrow> string \<Rightarrow> tt_entry \<Rightarrow> (string \<times> tt_entry) list" where
  "mapSet [] k v = [(k, v)]"
| "mapSet ((k', v') # kvs) k v = (if k' = k then (k, v) # kvs else (k', v') # mapSet kvs k v)"

text \<open>\<open>clear(0.5)\<close>: the lower half by depth - 2 age goes, the rest ages by one.\<close>

definition clearHalf :: "transpositionTable \<Rightarrow> transpositionTable" where
  "clearHalf tt =
     (let entries = table tt;
          countToRemove = length entries div 2;
          sorted = sort_key (\<lambda>kv. e_depth (snd kv) - e_age (snd kv) * 2) entries;
          removed = map fst (take countToRemove sorted)
      in tt\<lparr>table := map (\<lambda>kv. (fst kv, (snd kv)\<lparr>e_age := e_age (snd kv) + 1\<rparr>))
                        (filter (\<lambda>kv. fst kv \<notin> set removed) entries)\<rparr>)"

definition store ::
  "transpositionTable \<Rightarrow> string \<Rightarrow> int \<Rightarrow> int \<Rightarrow> tt_flag \<Rightarrow> move option \<Rightarrow> transpositionTable" where
  "store tt fen depth val flag bestMove =
     (let tt1 = (if int (length (table tt)) \<ge> maxSize tt then clearHalf tt else tt) in
      tt1\<lparr>table := mapSet (table tt1) (ttKey fen)
             \<lparr>e_depth = depth, e_value = val, e_flag = flag, e_bestMove = bestMove,
              e_age = 0\<rparr>\<rparr>)"

definition lookup :: "transpositionTable \<Rightarrow> string \<Rightarrow> tt_entry option" where
  "lookup tt fen = map_of (table tt) (ttKey fen)"

section \<open>Static evaluation\<close>

text \<open>
  The tables of the source are indexed by the piece kind. A kind other than the six of
  the source (0 or 7) has no entry there; the loader and the move functions never put
  such a code on the board. The endgame tables and the phase are computed by the source
  and never used, so they are left out.
\<close>

definition PIECE_VALUES :: "int \<Rightarrow> int" where
  "PIECE_VALUES t =
     (if t = PAWN then 100 else if t = KNIGHT then 320 else if t = BISHOP then 330
      else if t = ROOK then 500 else if t = QUEEN then 900 else if t = KING then 20000
      else 0)"

definition MG_PAWN :: "int list" where
  "MG_PAWN =
     [0, 0, 0, 0, 0, 0, 0, 0,
      50, 50, 50, 50, 50, 50, 50, 50,
      10, 10, 20, 30, 30, 20, 10, 10,
      5, 5, 10, 25, 25, 10, 5, 5,
      0, 0, 0, 20, 20, 0, 0, 0,
      5, -5, -10, 0, 0, -10, -5, 5,
      5, 10, 10, -20, -20, 10, 10, 5,
      0, 0, 0, 0, 0, 0, 0, 0]"

definition MG_KNIGHT :: "int list" where
  "MG_KNIGHT =
     [-50, -40, -30, -30, -30, -30, -40, -50,
      -40, -20, 0, 0, 0, 0, -20, -40,
      -30, 0, 10, 15, 15, 10, 0, -30,
      -30, 5, 15, 20, 20, 15, 5, -30,
      -30, 0, 15, 20, 20, 15, 0, -30,
      -30, 5, 10, 15, 15, 10, 5, -30,
      -40, -20, 0, 5, 5, 0, -20, -40,
      -50, -40, -30, -30, -30, -30, -40, -50]"

definition MG_BISHOP :: "int list" where
  "MG_BISHOP =
     [-20, -10, -10, -10, -10, -10, -10, -20,
      -10, 0, 0, 0, 0, 0, 0, -10,
      -10, 0, 10, 10, 10, 10, 0, -10,
      -10, 5, 5, 10, 10, 5, 5, -10,
      -10, 0, 5, 10, 10, 5, 0, -10,
      -10, 5, 5, 5, 5, 5, 5, -10,
      -10, 0, 5, 0, 0, 5, 0, -10,
      -20, -10, -10, -10, -10, -10, -10, -20]"

definition MG_ROOK :: "int list" where
  "MG_ROOK =
     [0, 0, 0, 0, 0, 0, 0, 0,
      5, 10, 10, 10, 10, 10, 10, 5,
      -5, 0, 0, 0, 0, 0, 0, -5,
      -5, 0, 0, 0, 0, 0, 0, -5,
      -5, 0, 0, 0, 0, 0, 0, -5,
      -5, 0, 0, 0, 0, 0, 0, -5,
      -5, 0, 0, 0, 0, 0, 0, -5,
      0, 0, 5, 5, 5, 5, 0, 0]"

definition MG_QUEEN :: "int list" where
  "MG_QUEEN =
     [-20, -10, -10, -5, -5, -10, -10, -20,
      -10, 0, 0, 0, 0, 0, 0, -10,
      -10, 0, 5, 5, 5, 5, 0, -10,
      -5, 0, 5, 5, 5, 5, 0, -5,
      0, 0, 5, 5, 5, 5, 0, -5,
      -10, 5, 5, 5, 5, 5, 0, -10,
      -10, 0, 5, 0, 0, 0, 0, -10,
      -20, -10, -10, -5, -5, -10, -10, -20]"

definition MG_KING :: "int list" where
  "MG_KING =
     [-30, -40, -40, -50, -50, -40, -40, -30,
      -30, -40, -40, -50, -50, -40, -40, -30,
      -30, -40, -40, -50, -50, -40, -40, -30,
      -30, -40, -40, -50, -50, -40, -40, -30,
      -20, -30, -30, -40, -40, -30, -30, -20,
      -10, -20, -20, -20, -20, -20, -20, -10,
      20, 20, 0, 0, 0, 0, 20, 20,
      20, 30, 10, 0, 0, 10, 30, 20]"

definition MG_TABLES :: "int \<Rightarrow> int list" where
  "MG_TABLES t =
     (if t = PAWN then MG_PAWN else if t = KNIGHT then MG_KNIGHT
      else if t = BISHOP then MG_BISHOP else if t = ROOK then MG_ROOK
      else if t = QUEEN then MG_QUEEN else if t = KING then MG_KING else [])"

abbreviation (input) BISHOP_PAIR_BONUS :: int where "BISHOP_PAIR_BONUS \<equiv> 50"
abbreviation (input) MOBILITY_FACTOR :: int where "MOBILITY_FACTOR \<equiv> 3"
abbreviation (input) ROOK_ON_OPEN_FILE_BONUS :: int where "ROOK_ON_OPEN_FILE_BONUS \<equiv> 25"
abbreviation (input) ROOK_ON_SEMI_OPEN_FILE_BONUS :: int where "ROOK_ON_SEMI_OPEN_FILE_BONUS \<equiv> 15"
abbreviation (input) ROOK_ON_SEVENTH_BONUS :: int where "ROOK_ON_SEVENTH_BONUS \<equiv> 30"
abbreviation (input) DOUBLED_PAWN_PENALTY :: int where "DOUBLED_PAWN_PENALTY \<equiv> - 15"
abbreviation (input) ISOLATED_PAWN_PENALTY :: int where "ISOLATED_PAWN_PENALTY \<equiv> - 15"

definition PASSED_PAWN_BONUS :: "int list" where
  "PASSED_PAWN_BONUS = [0, 5, 10, 20, 40, 60, 100, 200]"

text \<open>
  The variables that the loop over the 64 squares accumulates. Of the two piece counts
  only the bishops' are read afterwards.
\<close>

record evalAcc =
  a_score :: int
  whiteMaterial :: int
  blackMaterial :: int
  whiteBishops :: int
  blackBishops :: int
  whitePawns :: "int list"
  blackPawns :: "int list"
  whitePawnsPerFile :: "int list"
  blackPawnsPerFile :: "int list"
  whiteRookFiles :: "int list"
  blackRookFiles :: "int list"

definition evalSquare :: "board \<Rightarrow> evalAcc \<Rightarrow> int \<Rightarrow> evalAcc" where
  "evalSquare b a square =
     (let p = sq b square in
      if p = EMPTY then a
      else
        let pieceType = p AND PIECE_MASK;
            pieceColor = p AND COLOR_MASK;
            file = square mod 8;
            a1 =
              (if pieceColor = WHITE then
                 a\<lparr>whiteMaterial := whiteMaterial a + PIECE_VALUES pieceType,
                   whiteBishops :=
                     (if pieceType = BISHOP then whiteBishops a + 1 else whiteBishops a),
                   whitePawns :=
                     (if pieceType = PAWN then whitePawns a @ [square] else whitePawns a),
                   whitePawnsPerFile :=
                     (if pieceType = PAWN
                      then (whitePawnsPerFile a)[nat file := whitePawnsPerFile a ! nat file + 1]
                      else whitePawnsPerFile a),
                   whiteRookFiles :=
                     (if pieceType = ROOK then whiteRookFiles a @ [file] else whiteRookFiles a)\<rparr>
               else
                 a\<lparr>blackMaterial := blackMaterial a + PIECE_VALUES pieceType,
                   blackBishops :=
                     (if pieceType = BISHOP then blackBishops a + 1 else blackBishops a),
                   blackPawns :=
                     (if pieceType = PAWN then blackPawns a @ [square] else blackPawns a),
                   blackPawnsPerFile :=
                     (if pieceType = PAWN
                      then (blackPawnsPerFile a)[nat file := blackPawnsPerFile a ! nat file + 1]
                      else blackPawnsPerFile a),
                   blackRookFiles :=
                     (if pieceType = ROOK then blackRookFiles a @ [file] else blackRookFiles a)\<rparr>);
            whiteOrientedSquare = (if pieceColor = WHITE then square else 63 - square);
            mgValue = MG_TABLES pieceType ! nat whiteOrientedSquare
        in a1\<lparr>a_score :=
                (if pieceColor = WHITE then a_score a1 + mgValue else a_score a1 - mgValue)\<rparr>)"

definition evalPieces :: "board \<Rightarrow> evalAcc" where
  "evalPieces b =
     foldl (evalSquare b)
       \<lparr>a_score = 0, whiteMaterial = 0, blackMaterial = 0, whiteBishops = 0,
        blackBishops = 0, whitePawns = [], blackPawns = [],
        whitePawnsPerFile = [0, 0, 0, 0, 0, 0, 0, 0],
        blackPawnsPerFile = [0, 0, 0, 0, 0, 0, 0, 0],
        whiteRookFiles = [], blackRookFiles = []\<rparr>
       (map int [0..<64])"

text \<open>
  The pawn structure loop over the files 0 to 7. The doubled-pawn term of one colour on
  one file with \<open>n\<close> pawns of that colour is what \<open>score += DOUBLED_PAWN_PENALTY * n\<close>,
  guarded by \<open>n > 1\<close>, adds to the score (black's is subtracted).
\<close>

definition doubledPawnTerm :: "int \<Rightarrow> int" where
  "doubledPawnTerm n = (if n > 1 then DOUBLED_PAWN_PENALTY * n else 0)"

definition isolatedOn :: "int list \<Rightarrow> int \<Rightarrow> bool" where
  "isolatedOn perFile file \<longleftrightarrow>
     perFile ! nat file > 0 \<and>
     (file = 0 \<or> perFile ! nat (file - 1) = 0) \<and>
     (file = 7 \<or> perFile ! nat (file + 1) = 0)"

definition pawnStructureFile :: "int list \<Rightarrow> int list \<Rightarrow> int \<Rightarrow> int \<Rightarrow> int" where
  "pawnStructureFile wpf bpf score file =
     (let s1 = score + doubledPawnTerm (wpf ! nat file);
          s2 = s1 - doubledPawnTerm (bpf ! nat file);
          s3 = (if isolatedOn wpf file then s2 + ISOLATED_PAWN_PENALTY else s2);
          s4 = (if isolatedOn bpf file then s3 - ISOLATED_PAWN_PENALTY else s3)
      in s4)"

definition pawnStructure :: "int list \<Rightarrow> int list \<Rightarrow> int \<Rightarrow> int" where
  "pawnStructure wpf bpf score =
     foldl (pawnStructureFile wpf bpf) score [0, 1, 2, 3, 4, 5, 6, 7]"

definition whitePassed :: "board \<Rightarrow> int \<Rightarrow> bool" where
  "whitePassed b square =
     (let file = square mod 8; rank = square div 8 in
      \<not> list_ex (\<lambda>f. list_ex (\<lambda>r. sq b (r * 8 + f) = (PAWN OR BLACK)) [rank + 1..7])
          [max 0 (file - 1)..min 7 (file + 1)])"

definition blackPassed :: "board \<Rightarrow> int \<Rightarrow> bool" where
  "blackPassed b square =
     (let file = square mod 8; rank = square div 8 in
      \<not> list_ex (\<lambda>f. list_ex (\<lambda>r. sq b (r * 8 + f) = (PAWN OR WHITE)) [0..rank - 1])
          [max 0 (file - 1)..min 7 (file + 1)])"

definition passedPawns :: "board \<Rightarrow> evalAcc \<Rightarrow> int \<Rightarrow> int" where
  "passedPawns b a score =
     (let s1 = foldl (\<lambda>s square.
                 if whitePassed b square then s + PASSED_PAWN_BONUS ! nat (square div 8) else s)
               score (whitePawns a)
      in foldl (\<lambda>s square.
           if blackPassed b square then s - PASSED_PAWN_BONUS ! nat (7 - square div 8) else s)
         s1 (blackPawns a))"

text \<open>
  The scan of one rook's file from rank 0 upwards: the pair is \<open>(isOpen, isSemiOpen)\<close>,
  and a pawn of the rook's own colour ends the scan.
\<close>

fun rookFileScan :: "board \<Rightarrow> int \<Rightarrow> int \<Rightarrow> int list \<Rightarrow> bool \<times> bool \<Rightarrow> bool \<times> bool" where
  "rookFileScan b own file [] acc = acc"
| "rookFileScan b own file (rank # ranks) acc =
     (let p = sq b (rank * 8 + file) in
      if p \<noteq> EMPTY \<and> p AND PIECE_MASK = PAWN then
        (if p AND COLOR_MASK = own then (False, False)
         else rookFileScan b own file ranks (False, snd acc))
      else rookFileScan b own file ranks acc)"

definition rookFileBonus :: "board \<Rightarrow> int \<Rightarrow> int \<Rightarrow> int" where
  "rookFileBonus b own file =
     (let r = rookFileScan b own file [0, 1, 2, 3, 4, 5, 6, 7] (True, True) in
      if fst r then ROOK_ON_OPEN_FILE_BONUS
      else if snd r then ROOK_ON_SEMI_OPEN_FILE_BONUS else 0)"

definition rookTerms :: "board \<Rightarrow> evalAcc \<Rightarrow> int \<Rightarrow> int" where
  "rookTerms b a score =
     (let s1 = foldl (\<lambda>s file. s + rookFileBonus b WHITE file) score (whiteRookFiles a);
          s2 = foldl (\<lambda>s file. s - rookFileBonus b BLACK file) s1 (blackRookFiles a);
          s3 = foldl (\<lambda>s square.
                 if sq b square = (ROOK OR WHITE) then s + ROOK_ON_SEVENTH_BONUS else s)
               s2 (map (\<lambda>file. 6 * 8 + file) (whiteRookFiles a))
      in foldl (\<lambda>s square.
           if sq b square = (ROOK OR BLACK) then s - ROOK_ON_SEVENTH_BONUS else s)
         s3 (map (\<lambda>file. 1 * 8 + file) (blackRookFiles a)))"

text \<open>The score before the mobility term, from white's side.\<close>

definition staticScore :: "board \<Rightarrow> int" where
  "staticScore b =
     (let a = evalPieces b;
          s1 = (if whiteBishops a \<ge> 2 then a_score a + BISHOP_PAIR_BONUS else a_score a);
          s2 = (if blackBishops a \<ge> 2 then s1 - BISHOP_PAIR_BONUS else s1);
          s3 = s2 + (whiteMaterial a - blackMaterial a);
          s4 = pawnStructure (whitePawnsPerFile a) (blackPawnsPerFile a) s3;
          s5 = passedPawns b a s4
      in rookTerms b a s5)"

text \<open>
  \<open>evaluatePosition\<close> sets the side to move to white and to black, calls
  \<open>getLegalMoves\<close> under each, and puts the side to move back; the model returns the
  score together with the board this leaves.
\<close>

definition evaluatePosition :: "board \<Rightarrow> int \<times> board" where
  "evaluatePosition b =
     (let us = turn b;
          score = staticScore b;
          r1 = getLegalMoves (b\<lparr>turn := WHITE\<rparr>);
          r2 = getLegalMoves ((snd r1)\<lparr>turn := BLACK\<rparr>);
          score' = score + MOBILITY_FACTOR * (int (length (fst r1)) - int (length (fst r2)))
      in (if us = WHITE then score' else - score', (snd r2)\<lparr>turn := us\<rparr>))"

text \<open>
  The parts of the returned score, for stating what the doubled pawns add to it. The
  number of pawns of one colour on a file is counted on the board itself. The isolated
  pawn terms and the mobility term are the source's, taken on their own; together with
  the piece-square values, the bishop pair, the material, the passed pawns and the rook
  terms they are every term of the score other than the doubled-pawn terms.
\<close>

definition pawnsOnFile :: "board \<Rightarrow> int \<Rightarrow> int \<Rightarrow> int" where
  "pawnsOnFile b colour file =
     int (length (filter (\<lambda>s. s mod 8 = file \<and> sq b s = (PAWN OR colour)) (map int [0..<64])))"

definition isolatedPawnTerms :: "board \<Rightarrow> int" where
  "isolatedPawnTerms b =
     (let a = evalPieces b in
      foldl (\<lambda>s file.
          s + (if isolatedOn (whitePawnsPerFile a) file then ISOLATED_PAWN_PENALTY else 0)
            - (if isolatedOn (blackPawnsPerFile a) file then ISOLATED_PAWN_PENALTY else 0))
        0 [0, 1, 2, 3, 4, 5, 6, 7])"

definition mobilityTerm :: "board \<Rightarrow> int" where
  "mobilityTerm b =
     (let r1 = getLegalMoves (b\<lparr>turn := WHITE\<rparr>);
          r2 = getLegalMoves ((snd r1)\<lparr>turn := BLACK\<rparr>)
      in MOBILITY_FACTOR * (int (length (fst r1)) - int (length (fst r2))))"

definition termsOtherThanDoubledPawns :: "board \<Rightarrow> int" where
  "termsOtherThanDoubledPawns b =
     (let a = evalPieces b;
          s1 = (if whiteBishops a \<ge> 2 then a_score a + BISHOP_PAIR_BONUS else a_score a);
          s2 = (if blackBishops a \<ge> 2 then s1 - BISHOP_PAIR_BONUS else s1);
          s3 = s2 + (whiteMaterial a - blackMaterial a)
      in s3 + isolatedPawnTerms b + passedPawns b a 0 + rookTerms b a 0 + mobilityTerm b)"

text \<open>
  White king e1, white pawns d2, e2 and e3, black king e8, white to move: the e-file
  holds two white pawns, and no pawn is isolated.
\<close>

definition doubledEPawns :: board where
  "doubledEPawns =
     \<lparr>squares =
        [0, 0, 0, 0, 14, 0, 0, 0,
         0, 0, 0, 9, 9, 0, 0, 0,
         0, 0, 0, 0, 9, 0, 0, 0,
         0, 0, 0, 0, 0, 0, 0, 0,
         0, 0, 0, 0, 0, 0, 0, 0,
         0, 0, 0, 0, 0, 0, 0, 0,
         0, 0, 0, 0, 0, 0, 0, 0,
         0, 0, 0, 0, 22, 0, 0, 0],
      turn = WHITE, castlingRights = 0, enPassantSquare = -1, halfMoveClock = 0,
      fullMoveNumber = 1, whiteKingPos = 4, blackKingPos = 60, history = []\<rparr>"

section \<open>Loading a textual position\<close>

text \<open>
  \<open>fen.trim().split(/\s+/)\<close>: the maximal runs of characters that are not white space,
  or the one empty string when there is none. White space is the ASCII part of what
  \<open>\s\<close> matches.
\<close>

definition isWhiteSpace :: "char \<Rightarrow> bool" where
  "isWhiteSpace c \<longleftrightarrow> c \<in> set [CHR '' '', CHR 0x09, CHR 0x0A, CHR 0x0B, CHR 0x0C, CHR 0x0D]"

fun splitWhiteSpaceRuns :: "string \<Rightarrow> string \<Rightarrow> string list" where
  "splitWhiteSpaceRuns cur [] = (if cur = [] then [] else [cur])"
| "splitWhiteSpaceRuns cur (c # cs) =
     (if isWhiteSpace c
      then (if cur = [] then [] else [cur]) @ splitWhiteSpaceRuns [] cs
      else splitWhiteSpaceRuns (cur @ [c]) cs)"

definition trimSplit :: "string \<Rightarrow> string list" where
  "trimSplit fen = (let ps = splitWhiteSpaceRuns [] fen in if ps = [] then [[]] else ps)"

definition toUpperCase :: "char \<Rightarrow> char" where
  "toUpperCase c =
     (if (97 :: nat) \<le> of_char c \<and> of_char c \<le> (122 :: nat)
      then char_of (of_char c - (32 :: nat)) else c)"

definition toLowerCase :: "char \<Rightarrow> char" where
  "toLowerCase c =
     (if (65 :: nat) \<le> of_char c \<and> of_char c \<le> (90 :: nat)
      then char_of (of_char c + (32 :: nat)) else c)"

definition fenCharToPiece :: "char \<Rightarrow> int" where
  "fenCharToPiece c =
     (let isWhite = (c = toUpperCase c);
          color = (if isWhite then WHITE else BLACK);
          l = toLowerCase c
      in if l = CHR ''p'' then PAWN OR color
         else if l = CHR ''n'' then KNIGHT OR color
         else if l = CHR ''b'' then BISHOP OR color
         else if l = CHR ''r'' then ROOK OR color
         else if l = CHR ''q'' then QUEEN OR color
         else if l = CHR ''k'' then KING OR color
         else EMPTY)"

text \<open>
  \<open>parseInt(s, 10)\<close> on a field without white space. The result is the double nearest to
  the numeral's value. \<open>None\<close> is \<open>NaN\<close>, or the result on a numeral of more than 20
  digits, where the language lets an implementation replace the digits after the 20th
  by zeros, so that the text alone does not fix the number.
\<close>

definition isDigit :: "char \<Rightarrow> bool" where
  "isDigit c \<longleftrightarrow> (48 :: nat) \<le> of_char c \<and> of_char c \<le> (57 :: nat)"

definition digitValue :: "char \<Rightarrow> int" where
  "digitValue c = int (of_char c) - 48"

definition parseDigits :: "string \<Rightarrow> int option" where
  "parseDigits s =
     (let ds = takeWhile isDigit s in
      if ds = [] \<or> length ds > 20 then None
      else Some (roundToDouble (foldl (\<lambda>n c. n * 10 + digitValue c) 0 ds)))"

definition parseInt :: "string \<Rightarrow> int option" where
  "parseInt s =
     (case s of
        [] \<Rightarrow> None
      | c # cs \<Rightarrow>
          if c = CHR ''-'' then map_option uminus (parseDigits cs)
          else if c = CHR ''+'' then parseDigits cs
          else parseDigits s)"

text \<open>The object \<open>SQUARES\<close> at a name: \<open>None\<close> where it has no square of that name.\<close>

definition SQUARES :: "string \<Rightarrow> int option" where
  "SQUARES name =
     (case name of
        [f, r] \<Rightarrow>
          if (97 :: nat) \<le> of_char f \<and> of_char f \<le> (104 :: nat) \<and>
             (49 :: nat) \<le> of_char r \<and> of_char r \<le> (56 :: nat)
          then Some ((int (of_char r) - 49) * 8 + (int (of_char f) - 97))
          else None
      | _ \<Rightarrow> None)"

text \<open>
  The two loops over the rows and their characters. A write at an index past 63 (a row
  that is too long) extends the JavaScript array; nothing reads there, and the model
  drops the write.
\<close>

fun placeRow :: "string \<Rightarrow> int \<Rightarrow> int \<Rightarrow> board \<Rightarrow> board" where
  "placeRow [] square file b = b"
| "placeRow (c # cs) square file b =
     (if c \<in> set ''12345678'' then placeRow cs square (file + digitValue c) b
      else
        let p = fenCharToPiece c;
            b1 =
              (if p \<noteq> EMPTY then
                 b\<lparr>squares := (squares b)[nat (square + file) := p],
                   whiteKingPos :=
                     (if p AND PIECE_MASK = KING \<and> p AND COLOR_MASK = WHITE
                      then square + file else whiteKingPos b),
                   blackKingPos :=
                     (if p AND PIECE_MASK = KING \<and> p AND COLOR_MASK \<noteq> WHITE
                      then square + file else blackKingPos b)\<rparr>
               else b)
        in placeRow cs square (file + 1) b1)"

fun placeRows :: "string list \<Rightarrow> int \<Rightarrow> board \<Rightarrow> board" where
  "placeRows [] square b = b"
| "placeRows (row # rows) square b = placeRows rows (square - 8) (placeRow row square 0 b)"

definition parseCastling :: "string \<Rightarrow> int" where
  "parseCastling s =
     (if s \<noteq> ''-'' then
        (if CHR ''K'' \<in> set s then CASTLE_WHITE_KINGSIDE else 0) OR
        (if CHR ''Q'' \<in> set s then CASTLE_WHITE_QUEENSIDE else 0) OR
        (if CHR ''k'' \<in> set s then CASTLE_BLACK_KINGSIDE else 0) OR
        (if CHR ''q'' \<in> set s then CASTLE_BLACK_QUEENSIDE else 0)
      else 0)"

text \<open>
  What a call of \<open>loadFromFen\<close> does: it returns and leaves a board, or it throws an
  error with a message and leaves a board. Where the source would store \<open>undefined\<close> (an
  en passant field that names no square), \<open>NaN\<close> (a clock field that does not start
  with a numeral) or a number that the text does not fix (a clock field of more than 20
  digits), the integer fields of the model have no value to hold, and the model says so
  with \<open>Unrepresented\<close>.
\<close>

datatype load_result = Loaded board | Thrown string board | Unrepresented

definition loadFromFen :: "board \<Rightarrow> string \<Rightarrow> load_result" where
  "loadFromFen b fen =
     (let parts = trimSplit fen in
      if length parts < 4 then Thrown ''Invalid FEN string'' b
      else
        let b1 = b\<lparr>squares := map (\<lambda>_. EMPTY) (squares b)\<rparr>;
            rows = splitOn CHR ''/'' (parts ! 0)
        in if length rows \<noteq> 8
           then Thrown ''Invalid FEN: piece placement must have 8 rows'' b1
           else
             let b2 = placeRows rows 56 b1;
                 ep = (if parts ! 3 = ''-'' then Some (- 1) else SQUARES (parts ! 3));
                 hmc = (if length parts > 4 then parseInt (parts ! 4) else Some 0);
                 fmn = (if length parts > 5 then parseInt (parts ! 5) else Some 1)
             in case (ep, hmc, fmn) of
                  (Some e, Some h, Some n) \<Rightarrow>
                    Loaded (b2\<lparr>turn := (if parts ! 1 = ''w'' then WHITE else BLACK),
                               castlingRights := parseCastling (parts ! 2),
                               enPassantSquare := e,
                               halfMoveClock := h,
                               fullMoveNumber := n,
                               history := []\<rparr>)
                | _ \<Rightarrow> Unrepresented)"

section \<open>The search driver\<close>

text \<open>
  The fields of \<open>ChessEngine2\<close> that the search reads and writes. \<open>Date.now()\<close> is the
  environment's: \<open>now k\<close> is what its \<open>k\<close>-th call returns, and \<open>clockReads\<close> counts
  the calls made so far. The interval between two looks at the clock is the constant 1000
  of the constructor. The history table (an array of 64 * 64 counters) and the killer
  moves (an array of 2 * 64 slots) are functions of the index.
\<close>

record engine =
  the_board :: board
  timeLimit :: int
  maxDepth :: int
  evaluations :: int
  nodesSearched :: int
  startTime :: int
  searchAborted :: bool
  ttable :: transpositionTable
  historyTable :: "int \<Rightarrow> int"
  killerMoves :: "nat \<Rightarrow> move option"
  clockReads :: nat

abbreviation (input) MATE_VALUE :: int where "MATE_VALUE \<equiv> 20000"
abbreviation (input) MATE_THRESHOLD :: int where "MATE_THRESHOLD \<equiv> 19000"

definition checkTime :: "(nat \<Rightarrow> int) \<Rightarrow> engine \<Rightarrow> engine" where
  "checkTime now st =
     (let st1 = st\<lparr>nodesSearched := nodesSearched st + 1\<rparr> in
      if nodesSearched st1 mod 1000 = 0 then
        (let t = now (clockReads st1);
             st2 = st1\<lparr>clockReads := clockReads st1 + 1\<rparr>
         in if t - startTime st2 > timeLimit st2 then st2\<lparr>searchAborted := True\<rparr> else st2)
      else st1)"

definition isKillerMove :: "engine \<Rightarrow> move \<Rightarrow> nat \<Rightarrow> bool" where
  "isKillerMove st m ply =
     ((case killerMoves st (ply * 2) of
         None \<Rightarrow> False
       | Some k \<Rightarrow> from_sq k = from_sq m \<and> to_sq k = to_sq m) \<or>
      (case killerMoves st (ply * 2 + 1) of
         None \<Rightarrow> False
       | Some k \<Rightarrow> from_sq k = from_sq m \<and> to_sq k = to_sq m))"

definition moveScore :: "engine \<Rightarrow> move option \<Rightarrow> nat \<Rightarrow> move \<Rightarrow> int" where
  "moveScore st ttMove ply m =
     (if (case ttMove of None \<Rightarrow> False
          | Some k \<Rightarrow> from_sq m = from_sq k \<and> to_sq m = to_sq k) then 2000000
      else if captured m \<noteq> EMPTY then
        1000000 + 10 * PIECE_VALUES (captured m AND PIECE_MASK)
          - PIECE_VALUES (piece m AND PIECE_MASK)
      else if promotion m \<noteq> EMPTY then 900000 + PIECE_VALUES (promotion m)
      else if isKillerMove st m ply then 800000
      else historyTable st (from_sq m * 64 + to_sq m))"

text \<open>
  \<open>orderMoves\<close>: the scores, then the stable sort with the highest score first. (The
  source keeps the score in a field of the move object; nothing else reads it.)
\<close>

definition orderMoves :: "engine \<Rightarrow> move option \<Rightarrow> nat \<Rightarrow> move list \<Rightarrow> move list" where
  "orderMoves st ttMove ply moves = sort_key (\<lambda>m. - moveScore st ttMove ply m) moves"

definition evaluateOnBoard :: "engine \<Rightarrow> int \<times> engine" where
  "evaluateOnBoard st =
     (let r = evaluatePosition (the_board st) in (fst r, st\<lparr>the_board := snd r\<rparr>))"

text \<open>
  \<open>quiescenceSearch\<close> and its loop over the captures. The recursion ends when the
  captures run out; the model counts the nesting down from a bound and returns \<open>None\<close>
  if the bound is reached.
\<close>

fun quiescenceSearch ::
    "nat \<Rightarrow> (nat \<Rightarrow> int) \<Rightarrow> engine \<Rightarrow> int \<Rightarrow> int \<Rightarrow> (int \<times> engine) option"
  and quiescenceLoop ::
    "nat \<Rightarrow> (nat \<Rightarrow> int) \<Rightarrow> engine \<Rightarrow> move list \<Rightarrow> int \<Rightarrow> int \<Rightarrow> (int \<times> engine) option"
  where
  "quiescenceSearch 0 now st alpha beta = None"
| "quiescenceSearch (Suc n) now st alpha beta =
     (let st1 = checkTime now (st\<lparr>evaluations := evaluations st + 1\<rparr>);
          e = evaluateOnBoard st1;
          standPat = fst e;
          st2 = snd e
      in if standPat \<ge> beta then Some (beta, st2)
         else
           let alpha1 = (if standPat > alpha then standPat else alpha);
               r = getLegalMoves (the_board st2);
               st3 = st2\<lparr>the_board := snd r\<rparr>;
               moves = orderMoves st3 None 0 (filter (\<lambda>m. captured m \<noteq> EMPTY) (fst r))
           in quiescenceLoop n now st3 moves alpha1 beta)"
| "quiescenceLoop n now st [] alpha beta = Some (alpha, st)"
| "quiescenceLoop n now st (m # ms) alpha beta =
     (case quiescenceSearch n now (st\<lparr>the_board := makeMove (the_board st) m\<rparr>)
             (- beta) (- alpha) of
        None \<Rightarrow> None
      | Some r \<Rightarrow>
          let score = - fst r;
              st1 = (snd r)\<lparr>the_board := snd (undoMove (the_board (snd r)))\<rparr>
          in if searchAborted st1 then Some (0, st1)
             else if score > alpha then
               (if score \<ge> beta then Some (score, st1)
                else quiescenceLoop n now st1 ms score beta)
             else quiescenceLoop n now st1 ms alpha beta)"

text \<open>
  \<open>alphaBeta\<close>: the look at the clock, then the quiescence search at depth 0 or below.
  What the function does at depth 1 and above (the probe of the table, the null move, the
  move loop with its recursive calls) is the parameter \<open>deep\<close> of the model, so that
  every statement about the driver holds whatever the deeper search returns.
\<close>

definition alphaBeta ::
  "nat \<Rightarrow> (nat \<Rightarrow> int) \<Rightarrow> (engine \<Rightarrow> int \<Rightarrow> int \<Rightarrow> int \<Rightarrow> int \<Rightarrow> (int \<times> engine) option) \<Rightarrow>
   engine \<Rightarrow> int \<Rightarrow> int \<Rightarrow> int \<Rightarrow> int \<Rightarrow> (int \<times> engine) option" where
  "alphaBeta fuel now deep st depth alpha beta ply =
     (let st1 = checkTime now st in
      if depth \<le> 0 then quiescenceSearch fuel now st1 alpha beta
      else deep st1 depth alpha beta ply)"

text \<open>The loop over the ordered root moves; it returns \<open>{score, move}\<close> and the engine.\<close>

fun rootLoop ::
  "nat \<Rightarrow> (nat \<Rightarrow> int) \<Rightarrow> (engine \<Rightarrow> int \<Rightarrow> int \<Rightarrow> int \<Rightarrow> int \<Rightarrow> (int \<times> engine) option) \<Rightarrow>
   int \<Rightarrow> int \<Rightarrow> move list \<Rightarrow> int \<Rightarrow> int \<Rightarrow> move option \<Rightarrow> engine \<Rightarrow>
   ((int \<times> move option) \<times> engine) option" where
  "rootLoop fuel now deep depth beta [] alpha bestScore bestMove st =
     Some ((bestScore, bestMove), st)"
| "rootLoop fuel now deep depth beta (m # ms) alpha bestScore bestMove st =
     (case alphaBeta fuel now deep (st\<lparr>the_board := makeMove (the_board st) m\<rparr>)
             (depth - 1) (- beta) (- alpha) 1 of
        None \<Rightarrow> None
      | Some r \<Rightarrow>
          let score = - fst r;
              st1 = (snd r)\<lparr>the_board := snd (undoMove (the_board (snd r)))\<rparr>
          in if searchAborted st1 then Some ((bestScore, bestMove), st1)
             else if score > bestScore then
               rootLoop fuel now deep depth beta ms (if score > alpha then score else alpha)
                 score (Some m) st1
             else rootLoop fuel now deep depth beta ms alpha bestScore bestMove st1)"

definition rootAlphaBeta ::
  "nat \<Rightarrow> (nat \<Rightarrow> int) \<Rightarrow> (engine \<Rightarrow> int \<Rightarrow> int \<Rightarrow> int \<Rightarrow> int \<Rightarrow> (int \<times> engine) option) \<Rightarrow>
   engine \<Rightarrow> int \<Rightarrow> int \<Rightarrow> int \<Rightarrow> ((int \<times> move option) \<times> engine) option" where
  "rootAlphaBeta fuel now deep st depth alpha beta =
     (let r = getLegalMoves (the_board st);
          moves = fst r;
          st1 = st\<lparr>the_board := snd r\<rparr>
      in if length moves = 0 then
           (if isInCheck (the_board st1) (turn (the_board st1))
            then Some ((- MATE_VALUE, None), st1) else Some ((0, None), st1))
         else rootLoop fuel now deep depth beta (orderMoves st1 None 0 moves) alpha
                (- INFINITY) None st1)"

definition search ::
  "nat \<Rightarrow> (nat \<Rightarrow> int) \<Rightarrow> (engine \<Rightarrow> int \<Rightarrow> int \<Rightarrow> int \<Rightarrow> int \<Rightarrow> (int \<times> engine) option) \<Rightarrow>
   engine \<Rightarrow> int \<Rightarrow> ((int \<times> move option) \<times> engine) option" where
  "search fuel now deep st depth = rootAlphaBeta fuel now deep st depth (- INFINITY) INFINITY"

definition OPENING_BOOK :: "string \<Rightarrow> string list option" where
  "OPENING_BOOK fen =
     (if fen = ''rnbqkbnr/pppppppp/8/8/8/8/PPPPPPPP/RNBQKBNR w KQkq - 0 1''
      then Some [''e2e4'', ''d2d4'', ''c2c4'', ''g1f3'']
      else if fen = ''rnbqkbnr/pppppppp/8/8/4P3/8/PPPP1PPP/RNBQKBNR b KQkq e3 0 1''
      then Some [''e7e5'', ''c7c5'', ''e7e6'', ''c7c6'', ''d7d5'']
      else if fen = ''rnbqkbnr/pppppppp/8/8/3P4/8/PPP1PPPP/RNBQKBNR b KQkq d3 0 1''
      then Some [''d7d5'', ''g8f6'', ''e7e6'', ''c7c5'']
      else if fen = ''rnbqkbnr/pppppppp/8/8/2P5/8/PP1PPPPP/RNBQKBNR b KQkq c3 0 1''
      then Some [''e7e5'', ''g8f6'', ''c7c5'', ''g7g6'']
      else if fen = ''rnbqkbnr/pppppppp/8/8/8/5N2/PPPPPPPP/RNBQKB1R b KQkq - 1 1''
      then Some [''d7d5'', ''g8f6'', ''c7c5'', ''g7g6'']
      else None)"

definition moveToUci :: "move \<Rightarrow> string" where
  "moveToUci m =
     FILES_text (from_sq m mod 8) @ RANKS_text (from_sq m div 8) @
     FILES_text (to_sq m mod 8) @ RANKS_text (to_sq m div 8) @
     (if promotion m \<noteq> EMPTY then
        (if promotion m = QUEEN then ''q'' else if promotion m = ROOK then ''r''
         else if promotion m = BISHOP then ''b'' else if promotion m = KNIGHT then ''n''
         else [])
      else [])"

text \<open>
  The iterative deepening loop over the depths still to run. The test
  \<open>elapsed > timeLimit * 0.75\<close> is on integers \<open>4 elapsed > 3 timeLimit\<close>.
\<close>

fun deepen ::
  "nat \<Rightarrow> (nat \<Rightarrow> int) \<Rightarrow> (engine \<Rightarrow> int \<Rightarrow> int \<Rightarrow> int \<Rightarrow> int \<Rightarrow> (int \<times> engine) option) \<Rightarrow>
   int list \<Rightarrow> move option \<Rightarrow> engine \<Rightarrow> (move option \<times> engine) option" where
  "deepen fuel now deep [] bestMove st = Some (bestMove, st)"
| "deepen fuel now deep (depth # depths) bestMove st =
     (case search fuel now deep st depth of
        None \<Rightarrow> None
      | Some r \<Rightarrow>
          let st1 = snd r in
          if searchAborted st1 then Some (bestMove, st1)
          else
            let bestMove1 = snd (fst r); score = fst (fst r) in
            if \<bar>score\<bar> > MATE_THRESHOLD then Some (bestMove1, st1)
            else
              let elapsed = now (clockReads st1) - startTime st1;
                  st2 = st1\<lparr>clockReads := clockReads st1 + 1\<rparr>
              in if 4 * elapsed > 3 * timeLimit st2 then Some (bestMove1, st2)
                 else deepen fuel now deep depths bestMove1 st2)"

text \<open>
  \<open>getBestMove\<close>: \<open>None\<close> when the bound of the quiescence search is reached, otherwise
  the text it returns (\<open>None\<close> inside for \<open>null\<close>) and the engine it leaves. \<open>random\<close>
  stands for the index that \<open>Math.random\<close> picks in the book.
\<close>

definition getBestMove ::
  "nat \<Rightarrow> (nat \<Rightarrow> int) \<Rightarrow> nat \<Rightarrow>
   (engine \<Rightarrow> int \<Rightarrow> int \<Rightarrow> int \<Rightarrow> int \<Rightarrow> (int \<times> engine) option) \<Rightarrow>
   engine \<Rightarrow> (string option \<times> engine) option" where
  "getBestMove fuel now random deep st =
     (let st1 = st\<lparr>evaluations := 0, nodesSearched := 0,
                   startTime := now (clockReads st), searchAborted := False,
                   clockReads := clockReads st + 1\<rparr>
      in case OPENING_BOOK (toFen (the_board st1)) of
           Some moves \<Rightarrow> Some (Some (moves ! (random mod length moves)), st1)
         | None \<Rightarrow>
             (let st2 = st1\<lparr>historyTable := (\<lambda>i. 0), killerMoves := (\<lambda>i. None)\<rparr>
              in case deepen fuel now deep [1..maxDepth st2] None st2 of
                   None \<Rightarrow> None
                 | Some r \<Rightarrow> Some (map_option moveToUci (fst r), snd r)))"

text \<open>
  The position \<open>QQQQQQQQ/QQQQQQQQ/QQQQQQQQ/QQQQQQQQ/QQQQQQQQ/PPPPPPPP/8/K6k b - - 0 1\<close>:
  forty white queens behind a row of white pawns, the white king on a1, the black king on
  h1, black to move.
\<close>

definition queenWall :: board where
  "queenWall =
     \<lparr>squares =
        [14, 0, 0, 0, 0, 0, 0, 22,
         0, 0, 0, 0, 0, 0, 0, 0,
         9, 9, 9, 9, 9, 9, 9, 9,
         13, 13, 13, 13, 13, 13, 13, 13,
         13, 13, 13, 13, 13, 13, 13, 13,
         13, 13, 13, 13, 13, 13, 13, 13,
         13, 13, 13, 13, 13, 13, 13, 13,
         13, 13, 13, 13, 13, 13, 13, 13],
      turn = BLACK, castlingRights = 0, enPassantSquare = -1, halfMoveClock = 0,
      fullMoveNumber = 1, whiteKingPos = 0, blackKingPos = 7, history = []\<rparr>"

text \<open>An engine as its constructor leaves it, holding the given board.\<close>

definition newEngine :: "board \<Rightarrow> engine" where
  "newEngine b =
     \<lparr>the_board = b, timeLimit = 3000, maxDepth = 40, evaluations = 0, nodesSearched = 0,
      startTime = 0, searchAborted = False,
      ttable = \<lparr>table = [], maxSize = 1000000\<rparr>,
      historyTable = (\<lambda>i. 0), killerMoves = (\<lambda>i. None), clockReads = 0\<rparr>"

section \<open>Well-formed boards\<close>

text \<open>
  The invariants of the data model, as far as making and unmaking a move rely on them:
  64 squares that hold piece codes of the source; a side to move; an en passant target
  that is either absent or the empty square behind an enemy pawn that has just made its
  double step; king caches that name the square of every king of their colour; and
  castling rights only for a king on its home square.
\<close>

definition validPiece :: "int \<Rightarrow> bool" where
  "validPiece p \<longleftrightarrow> p \<in> set [0, 9, 10, 11, 12, 13, 14, 17, 18, 19, 20, 21, 22]"

definition enPassantConsistent :: "board \<Rightarrow> bool" where
  "enPassantConsistent b \<longleftrightarrow>
     enPassantSquare b = - 1 \<or>
     (turn b = WHITE \<and> 40 \<le> enPassantSquare b \<and> enPassantSquare b < 48 \<and>
      sq b (enPassantSquare b) = EMPTY \<and> sq b (enPassantSquare b - 8) = (PAWN OR BLACK)) \<or>
     (turn b = BLACK \<and> 16 \<le> enPassantSquare b \<and> enPassantSquare b < 24 \<and>
      sq b (enPassantSquare b) = EMPTY \<and> sq b (enPassantSquare b + 8) = (PAWN OR WHITE))"

definition kingCachesExact :: "board \<Rightarrow> bool" where
  "kingCachesExact b \<longleftrightarrow>
     list_all (\<lambda>s. (sq b s \<noteq> (KING OR WHITE) \<or> whiteKingPos b = s) \<and>
                   (sq b s \<noteq> (KING OR BLACK) \<or> blackKingPos b = s))
       (map int [0..<64])"

definition castlingConsistent :: "board \<Rightarrow> bool" where
  "castlingConsistent b \<longleftrightarrow>
     (castlingRights b AND (CASTLE_WHITE_KINGSIDE OR CASTLE_WHITE_QUEENSIDE) = 0 \<or>
      sq b 4 = (KING OR WHITE)) \<and>
     (castlingRights b AND (CASTLE_BLACK_KINGSIDE OR CASTLE_BLACK_QUEENSIDE) = 0 \<or>
      sq b 60 = (KING OR BLACK))"

definition wellFormed :: "board \<Rightarrow> bool" where
  "wellFormed b \<longleftrightarrow>
     length (squares b) = 64 \<and> list_all validPiece (squares b) \<and>
     (turn b = WHITE \<or> turn b = BLACK) \<and>
     enPassantConsistent b \<and> kingCachesExact b \<and> castlingConsistent b"

text \<open>The three shapes of a move that the generators produce on a board.\<close>

definition normalMove :: "board \<Rightarrow> move \<Rightarrow> bool" where
  "normalMove b m \<longleftrightarrow>
     (\<exists>f t promo.
        m = createMove b f t promo False False \<and>
        isSquareOnBoard f \<and> isSquareOnBoard t \<and> f \<noteq> t \<and>
        sq b f \<noteq> EMPTY \<and> sq b f AND COLOR_MASK = turn b \<and>
        (sq b t = EMPTY \<or> sq b t AND COLOR_MASK \<noteq> turn b) \<and>
        (promo = EMPTY \<or> promo = QUEEN \<or> promo = ROOK \<or> promo = BISHOP \<or> promo = KNIGHT))"

definition enPassantMove :: "board \<Rightarrow> move \<Rightarrow> bool" where
  "enPassantMove b m \<longleftrightarrow>
     (\<exists>f t.
        m = createMove b f t EMPTY True False \<and>
        isSquareOnBoard f \<and> isSquareOnBoard t \<and> t = enPassantSquare b \<and>
        sq b f AND PIECE_MASK = PAWN \<and> sq b f AND COLOR_MASK = turn b \<and>
        (t = f + (if turn b = WHITE then 8 else - 8) + 1 \<or>
         t = f + (if turn b = WHITE then 8 else - 8) - 1))"

definition castleMove :: "board \<Rightarrow> move \<Rightarrow> bool" where
  "castleMove b m \<longleftrightarrow>
     (turn b = WHITE \<and> m = createMove b 4 6 EMPTY False True \<and>
      castlingRights b AND CASTLE_WHITE_KINGSIDE \<noteq> 0 \<and> sq b 5 = EMPTY \<and> sq b 6 = EMPTY) \<or>
     (turn b = WHITE \<and> m = createMove b 4 2 EMPTY False True \<and>
      castlingRights b AND CASTLE_WHITE_QUEENSIDE \<noteq> 0 \<and>
      sq b 3 = EMPTY \<and> sq b 2 = EMPTY \<and> sq b 1 = EMPTY) \<or>
     (turn b \<noteq> WHITE \<and> m = createMove b 60 62 EMPTY False True \<and>
      castlingRights b AND CASTLE_BLACK_KINGSIDE \<noteq> 0 \<and> sq b 61 = EMPTY \<and> sq b 62 = EMPTY) \<or>
     (turn b \<noteq> WHITE \<and> m = createMove b 60 58 EMPTY False True \<and>
      castlingRights b AND CASTLE_BLACK_QUEENSIDE \<noteq> 0 \<and>
      sq b 59 = EMPTY \<and> sq b 58 = EMPTY \<and> sq b 57 = EMPTY)"

definition generatedMove :: "board \<Rightarrow> move \<Rightarrow> bool" where
  "generatedMove b m \<longleftrightarrow> normalMove b m \<or> enPassantMove b m \<or> castleMove b m"

text \<open>
  A ray from \<open>f\<close> in the direction \<open>dir\<close> is clear up to its \<open>k\<close>-th square when the
  squares 1 to \<open>k\<close> are on the board and pass the wrap test, and the squares before the
  \<open>k\<close>-th are empty.
\<close>

definition clearRay :: "board \<Rightarrow> int \<Rightarrow> int \<Rightarrow> int \<Rightarrow> bool" where
  "clearRay b f dir k \<longleftrightarrow>
     dir \<noteq> 0 \<and>
     (\<forall>i. 1 \<le> i \<and> i \<le> k \<longrightarrow> isSquareOnBoard (f + i * dir) \<and> \<not> wrapped f i dir (f + i * dir)) \<and>
     (\<forall>i. 1 \<le> i \<and> i < k \<longrightarrow> sq b (f + i * dir) = EMPTY)"

text \<open>
  What legal play keeps besides the well-formedness of the board: both kings stand on the
  squares that the caches name; no castling right is left whose rook home square holds
  the enemy king; and the king of the side that has just moved is not attacked.
\<close>

definition kingsPresent :: "board \<Rightarrow> bool" where
  "kingsPresent b \<longleftrightarrow>
     isSquareOnBoard (whiteKingPos b) \<and> sq b (whiteKingPos b) = (KING OR WHITE) \<and>
     isSquareOnBoard (blackKingPos b) \<and> sq b (blackKingPos b) = (KING OR BLACK)"

definition rookHomesKingFree :: "board \<Rightarrow> bool" where
  "rookHomesKingFree b \<longleftrightarrow>
     (castlingRights b AND CASTLE_WHITE_QUEENSIDE = 0 \<or> blackKingPos b \<noteq> 0) \<and>
     (castlingRights b AND CASTLE_WHITE_KINGSIDE = 0 \<or> blackKingPos b \<noteq> 7) \<and>
     (castlingRights b AND CASTLE_BLACK_QUEENSIDE = 0 \<or> whiteKingPos b \<noteq> 56) \<and>
     (castlingRights b AND CASTLE_BLACK_KINGSIDE = 0 \<or> whiteKingPos b \<noteq> 63)"

definition playable :: "board \<Rightarrow> bool" where
  "playable b \<longleftrightarrow>
     wellFormed b \<and> kingsPresent b \<and> rookHomesKingFree b \<and>
     \<not> isInCheck b (if turn b = WHITE then BLACK else WHITE)"

text \<open>
  The positions played from a start position: a legal move at a time, as long as the
  fullmove number is a safe integer. The reachable positions are those played from the
  initial position.
\<close>

inductive playedFrom :: "board \<Rightarrow> board \<Rightarrow> bool" for start :: board where
  start: "playedFrom start start"
| move: "playedFrom start b \<Longrightarrow> isSafeInteger (fullMoveNumber b) \<Longrightarrow>
         m \<in> set (fst (getLegalMoves b)) \<Longrightarrow> playedFrom start (makeMove b m)"

definition reachable :: "board \<Rightarrow> bool" where
  "reachable b \<longleftrightarrow> playedFrom setupInitialPosition b"

section \<open>Unmaking with an empty history\<close>

text \<open>
  C10: \<open>undoMove\<close> on a board whose history stack is empty returns \<open>null\<close> and leaves
  every field of the board, the empty history included, as it was.
\<close>

theorem undoMove_empty_history:
  "history b = [] \<Longrightarrow> undoMove b = (None, b) \<and> history (snd (undoMove b)) = []"
  by (simp add: undoMove_def)

theorem undoMove_empty_history_witness:
  "history setupInitialPosition = [] \<and>
   undoMove setupInitialPosition = (None, setupInitialPosition) \<and>
   history (snd (undoMove setupInitialPosition)) = []"
  using undoMove_empty_history [of setupInitialPosition]
  by (simp add: setupInitialPosition_def)

section \<open>The null-move probe\<close>


lemma null_move_round_trip:
  "turn b = WHITE \<or> turn b = BLACK \<Longrightarrow>
   undoNullMove (makeNullMove b) = b\<lparr>enPassantSquare := -1\<rparr>"
  by (auto simp: makeNullMove_def undoNullMove_def)

text \<open>
  C1, at the position after 1. e2e4 (black to move, en passant target e3 = 20): the guard
  of the probe holds at depth 3, and after \<open>makeNullMove\<close> and \<open>undoNullMove\<close> the en
  passant target is -1, so the board is not the board before the probe.
\<close>

theorem null_move_probe_loses_en_passant:
  "nullMoveProbeFires 3 afterE4 \<and> enPassantSquare afterE4 = 20 \<and>
   enPassantSquare (undoNullMove (makeNullMove afterE4)) = -1 \<and>
   undoNullMove (makeNullMove afterE4) \<noteq> afterE4"
  by code_simp

section \<open>Castling rights\<close>

lemma updateCastlingRights_a1_a8:
  "updateCastlingRights cr 0 56 = cr AND NOT CASTLE_WHITE_QUEENSIDE"
  by (simp add: updateCastlingRights_def)

text \<open>
  C2, at \<open>r3k2r/8/8/8/8/8/8/R3K2R w KQkq - 0 1\<close>: the capture a1a8 is a legal move, it
  puts the white rook on a8, the home square of black's queenside rook, and black's
  queenside right is still set afterwards (the rights are 13: all but white's queenside).
\<close>

theorem rook_takes_rook_keeps_black_queenside:
  "createMove rooksAndKings 0 56 EMPTY False False \<in> set (fst (getLegalMoves rooksAndKings)) \<and>
   sq rooksAndKings 56 = (ROOK OR BLACK) \<and>
   sq (makeMove rooksAndKings (createMove rooksAndKings 0 56 EMPTY False False)) 56
     = (ROOK OR WHITE) \<and>
   castlingRights (makeMove rooksAndKings (createMove rooksAndKings 0 56 EMPTY False False))
     = 13 \<and>
   (13 :: int) AND CASTLE_BLACK_QUEENSIDE = CASTLE_BLACK_QUEENSIDE"
  by code_simp

section \<open>The flag stored in the transposition table\<close>

lemma moveLoop_bestScore_le_alpha:
  "moveLoop child aborted beta ms alpha bestScore bestMove st = Some (alpha', bestScore', bm', st')
   \<Longrightarrow> bestScore \<le> alpha \<Longrightarrow> bestScore' \<le> alpha'"
proof (induction ms arbitrary: alpha bestScore bestMove st)
  case Nil
  then show ?case by simp
next
  case (Cons m ms)
  then show ?case
    by (auto simp: Let_def split: if_splits)
qed

lemma stored_flag_always_upper:
  "storedScoreAndFlag child aborted moves alpha beta st = Some (bestScore, flag)
   \<Longrightarrow> - INFINITY \<le> alpha \<Longrightarrow> flag = TT_ALPHA"
  by (auto simp: storedScoreAndFlag_def ttFlag_def split: option.splits
           dest: moveLoop_bestScore_le_alpha)

text \<open>
  C4, at a node entered with the window (-30000, 30000) whose single move scores 50: the
  best score 50 lies strictly inside the incoming window, and the flag handed to the table
  is \<open>TT_ALPHA\<close> (upper), because the loop has raised \<open>alpha\<close> to the best score before the
  flag is computed.
\<close>

theorem inside_window_stored_as_upper:
  "storedScoreAndFlag (\<lambda>st m a. (50, st)) (\<lambda>st. False)
     [createMove setupInitialPosition 12 28 EMPTY False False] (- INFINITY) INFINITY ()
     = Some (50, TT_ALPHA) \<and> - INFINITY < (50 :: int) \<and> (50 :: int) < INFINITY"
  by (simp add: storedScoreAndFlag_def ttFlag_def)

section \<open>The key of the transposition table\<close>

lemma splitOn_nonempty: "splitOn c s \<noteq> []"
  by (induction s) (auto split: list.splits)

lemma splitOn_append:
  "c \<notin> set a \<Longrightarrow> splitOn c (a @ c # rest) = a # splitOn c rest"
  by (induction a) (auto split: list.splits)

lemma splitOn_free: "c \<notin> set a \<Longrightarrow> splitOn c a = [a]"
  by (induction a) (auto split: list.splits)

lemma digitsOf_no_space: "CHR '' '' \<notin> set (digitsOf n)"
proof (induction n rule: digitsOf.induct)
  case (1 n)
  have d: "k < 10 \<Longrightarrow> ''0123456789'' ! k \<noteq> CHR '' ''" for k :: nat
  proof -
    assume "k < 10"
    then have "k \<in> {0,1,2,3,4,5,6,7,8,9}" by auto
    then show ?thesis by auto
  qed
  show ?case
    using 1 d[of n] d[of "n mod 10"] by (subst digitsOf.simps) auto
qed

lemma numberToString_no_space: "CHR '' '' \<notin> set (numberToString i)"
  by (simp add: numberToString_def digitsOf_no_space)

lemma pieceToFenChar_no_space: "pieceToFenChar p \<noteq> CHR '' ''"
  by (simp add: pieceToFenChar_def Let_def)

lemma fenRow_no_space: "CHR '' '' \<notin> set (fenRow ps n)"
  using pieceToFenChar_no_space [symmetric]
  by (induction ps arbitrary: n) (auto simp: numberToString_no_space)

lemma fenPlacement_no_space: "CHR '' '' \<notin> set (fenPlacement b)"
  by (simp add: fenPlacement_def fenRow_no_space del: fenRow.simps list.map)

lemma fenColor_no_space: "CHR '' '' \<notin> set (fenColor b)"
  by (simp add: fenColor_def)

lemma fenCastling_no_space: "CHR '' '' \<notin> set (fenCastling b)"
  by (simp add: fenCastling_def Let_def)

lemma FILES_text_no_space: "CHR '' '' \<notin> set (FILES_text i)"
proof (cases "0 \<le> i \<and> i < 8")
  case True
  then have "''abcdefgh'' ! nat i \<in> set ''abcdefgh''"
    by (intro nth_mem) (simp, linarith)
  moreover have "FILES_text i = [''abcdefgh'' ! nat i]"
    using True by (simp add: FILES_text_def)
  ultimately show ?thesis by auto
next
  case False
  then show ?thesis by (auto simp: FILES_text_def)
qed

lemma RANKS_text_no_space: "CHR '' '' \<notin> set (RANKS_text i)"
proof (cases "0 \<le> i \<and> i < 8")
  case True
  then have "''12345678'' ! nat i \<in> set ''12345678''"
    by (intro nth_mem) (simp, linarith)
  moreover have "RANKS_text i = [''12345678'' ! nat i]"
    using True by (simp add: RANKS_text_def)
  ultimately show ?thesis by auto
next
  case False
  then show ?thesis by (auto simp: RANKS_text_def)
qed

lemma fenEnPassant_no_space: "CHR '' '' \<notin> set (fenEnPassant b)"
  by (simp add: fenEnPassant_def FILES_text_no_space RANKS_text_no_space)

lemma take4_split_toFen: "take 4 (splitOn CHR '' '' (toFen b)) = fenFields4 b"
proof -
  have "splitOn CHR '' '' (toFen b) =
      fenPlacement b # fenColor b # fenCastling b # fenEnPassant b #
      splitOn CHR '' '' (numberToString (halfMoveClock b) @ '' '' @ numberToString (fullMoveNumber b))"
    unfolding toFen_def
    by (simp only: append_Cons append_Nil splitOn_append fenPlacement_no_space
      fenColor_no_space fenCastling_no_space fenEnPassant_no_space not_False_eq_True)
  then show ?thesis by (simp add: fenFields4_def)
qed


lemma joinWith_split:
  "xs \<noteq> [] \<Longrightarrow> \<forall>x \<in> set xs. c \<notin> set x \<Longrightarrow> splitOn c (joinWith [c] xs) = xs"
proof (induction xs)
  case Nil
  then show ?case by simp
next
  case (Cons x xs)
  show ?case
  proof (cases xs)
    case Nil
    with Cons.prems show ?thesis by (simp add: splitOn_free)
  next
    case (Cons y ys)
    with Cons.IH Cons.prems show ?thesis by (simp add: splitOn_append)
  qed
qed

lemma fenFields4_no_space: "\<forall>x \<in> set (fenFields4 b). CHR '' '' \<notin> set x"
  by (simp add: fenFields4_def fenPlacement_no_space
      fenColor_no_space fenCastling_no_space fenEnPassant_no_space)

lemma ttKey_toFen: "ttKey (toFen b) = joinWith '' '' (fenFields4 b)"
  by (simp add: ttKey_def take4_split_toFen)

lemma ttKey_inj: "ttKey (toFen b) = ttKey (toFen b') \<longleftrightarrow> fenFields4 b = fenFields4 b'"
proof
  assume "ttKey (toFen b) = ttKey (toFen b')"
  then have "splitOn CHR '' '' (joinWith '' '' (fenFields4 b)) = splitOn CHR '' '' (joinWith '' '' (fenFields4 b'))"
    by (simp add: ttKey_toFen)
  moreover have "fenFields4 b \<noteq> []" "fenFields4 b' \<noteq> []" by (simp_all add: fenFields4_def)
  ultimately show "fenFields4 b = fenFields4 b'"
    using joinWith_split[of "fenFields4 b" "CHR '' ''"] joinWith_split[of "fenFields4 b'" "CHR '' ''"]
      fenFields4_no_space by simp
next
  assume "fenFields4 b = fenFields4 b'"
  then show "ttKey (toFen b) = ttKey (toFen b')" by (simp add: ttKey_toFen)
qed

lemma map_of_mapSet: "map_of (mapSet kvs k v) k = Some v"
  by (induction kvs) auto

lemma lookup_store:
  "ttKey fen' = ttKey fen \<Longrightarrow>
   lookup (store tt fen d v f m) fen' =
     Some \<lparr>e_depth = d, e_value = v, e_flag = f, e_bestMove = m, e_age = 0\<rparr>"
  by (simp add: lookup_def store_def Let_def map_of_mapSet)

lemma fenFields4_clocks:
  "fenFields4 (b\<lparr>halfMoveClock := h, fullMoveNumber := n\<rparr>) = fenFields4 b"
  by (simp add: fenFields4_def fenPlacement_def sq_def fenColor_def fenCastling_def
      fenEnPassant_def del: fenRow.simps list.map)

text \<open>
  C8: the key that \<open>store\<close> and \<open>lookup\<close> derive from the textual form of a position is
  its first four fields joined by single spaces; two positions have the same key exactly
  when they agree on these four fields, so changing only the two clocks keeps the key, and
  a lookup under the changed clocks finds what was stored.
\<close>

theorem tt_key_first_four_fields:
  "take 4 (splitOn CHR '' '' (toFen b)) = fenFields4 b \<and>
   ttKey (toFen b) = joinWith '' '' (fenFields4 b) \<and>
   (ttKey (toFen b) = ttKey (toFen b') \<longleftrightarrow> fenFields4 b = fenFields4 b') \<and>
   ttKey (toFen (b\<lparr>halfMoveClock := h, fullMoveNumber := n\<rparr>)) = ttKey (toFen b) \<and>
   lookup (store tt (toFen b) d v f m) (toFen (b\<lparr>halfMoveClock := h, fullMoveNumber := n\<rparr>))
     = Some \<lparr>e_depth = d, e_value = v, e_flag = f, e_bestMove = m, e_age = 0\<rparr>"
proof -
  have k: "ttKey (toFen (b\<lparr>halfMoveClock := h, fullMoveNumber := n\<rparr>)) = ttKey (toFen b)"
    by (simp only: ttKey_inj fenFields4_clocks)
  show ?thesis
    using k take4_split_toFen [of b] ttKey_toFen [of b] ttKey_inj [of b b']
      lookup_store [OF k, of tt d v f m]
    by simp
qed



section \<open>The doubled-pawn term\<close>

lemma evalSquare_perFile:
  assumes "validPiece (sq b s)"
  shows "whitePawnsPerFile (evalSquare b a s) =
           (if sq b s = 9
            then (whitePawnsPerFile a)[nat (s mod 8) := whitePawnsPerFile a ! nat (s mod 8) + 1]
            else whitePawnsPerFile a)"
    and "blackPawnsPerFile (evalSquare b a s) =
           (if sq b s = 17
            then (blackPawnsPerFile a)[nat (s mod 8) := blackPawnsPerFile a ! nat (s mod 8) + 1]
            else blackPawnsPerFile a)"
  using assms unfolding validPiece_def evalSquare_def by (auto simp: Let_def)

lemma fold_perFile:
  assumes "\<forall>s \<in> set xs. validPiece (sq b s)" "0 \<le> f" "f < 8"
    "length (whitePawnsPerFile a) = 8" "length (blackPawnsPerFile a) = 8"
  shows "length (whitePawnsPerFile (foldl (evalSquare b) a xs)) = 8 \<and>
         length (blackPawnsPerFile (foldl (evalSquare b) a xs)) = 8 \<and>
         whitePawnsPerFile (foldl (evalSquare b) a xs) ! nat f =
           whitePawnsPerFile a ! nat f
             + int (length (filter (\<lambda>s. s mod 8 = f \<and> sq b s = 9) xs)) \<and>
         blackPawnsPerFile (foldl (evalSquare b) a xs) ! nat f =
           blackPawnsPerFile a ! nat f
             + int (length (filter (\<lambda>s. s mod 8 = f \<and> sq b s = 17) xs))"
  using assms
proof (induction xs arbitrary: a)
  case Nil
  then show ?case by simp
next
  case (Cons x xs)
  have v: "validPiece (sq b x)" using Cons.prems by simp
  have r: "0 \<le> x mod 8" "x mod 8 < 8" by simp_all
  have n: "nat (x mod 8) = nat f \<longleftrightarrow> x mod 8 = f" using r Cons.prems(2) by linarith
  have l: "nat (x mod 8) < 8" "nat f < 8" using r Cons.prems(2,3) by linarith+
  have a': "length (whitePawnsPerFile (evalSquare b a x)) = 8"
    "length (blackPawnsPerFile (evalSquare b a x)) = 8"
    using Cons.prems(4,5) by (simp_all add: evalSquare_perFile[OF v])
  have w: "whitePawnsPerFile (evalSquare b a x) ! nat f =
      whitePawnsPerFile a ! nat f + (if x mod 8 = f \<and> sq b x = 9 then 1 else 0)"
    using Cons.prems(4) l n by (auto simp: evalSquare_perFile[OF v] nth_list_update)
  have k: "blackPawnsPerFile (evalSquare b a x) ! nat f =
      blackPawnsPerFile a ! nat f + (if x mod 8 = f \<and> sq b x = 17 then 1 else 0)"
    using Cons.prems(5) l n by (auto simp: evalSquare_perFile[OF v] nth_list_update)
  have ih: "\<forall>s \<in> set xs. validPiece (sq b s)" using Cons.prems by simp
  show ?case
    using Cons.IH[OF ih Cons.prems(2,3) a'] w k by simp
qed

lemma evalPieces_perFile:
  assumes "length (squares b) = 64" "list_all validPiece (squares b)" "0 \<le> f" "f < 8"
  shows "whitePawnsPerFile (evalPieces b) ! nat f = pawnsOnFile b WHITE f"
    and "blackPawnsPerFile (evalPieces b) ! nat f = pawnsOnFile b BLACK f"
proof -
  define xs where "xs = map int [0..<64]"
  define a0 where "a0 = \<lparr>a_score = 0, whiteMaterial = 0, blackMaterial = 0, whiteBishops = 0,
        blackBishops = 0, whitePawns = [], blackPawns = [],
        whitePawnsPerFile = [0, 0, 0, 0, 0, 0, 0, 0],
        blackPawnsPerFile = [0, 0, 0, 0, 0, 0, 0, 0],
        whiteRookFiles = [], blackRookFiles = []\<rparr>"
  have v: "\<forall>s \<in> set xs. validPiece (sq b s)"
    using assms(1,2) unfolding xs_def by (auto simp: list_all_length sq_def)
  have l: "length (whitePawnsPerFile a0) = 8" "length (blackPawnsPerFile a0) = 8"
    by (simp_all add: a0_def)
  have "nat f < 8" using assms(3,4) by linarith
  then have z: "whitePawnsPerFile a0 ! nat f = 0" "blackPawnsPerFile a0 ! nat f = 0"
    by (auto simp: a0_def nth_Cons' )
  have e: "evalPieces b = foldl (evalSquare b) a0 xs"
    unfolding evalPieces_def a0_def xs_def ..
  have p: "pawnsOnFile b c f = int (length (filter (\<lambda>s. s mod 8 = f \<and> sq b s = (PAWN OR c)) xs))"
    for c unfolding pawnsOnFile_def xs_def ..
  note f = fold_perFile[OF v assms(3,4) l]
  show "whitePawnsPerFile (evalPieces b) ! nat f = pawnsOnFile b WHITE f"
    using f z(1) unfolding e p by simp
  show "blackPawnsPerFile (evalPieces b) ! nat f = pawnsOnFile b BLACK f"
    using f z(2) unfolding e p by simp
qed

lemma foldl_shift:
  fixes s d :: int
  assumes "\<And>s x. step (s + d) x = step s x + d"
  shows "foldl step (s + d) xs = foldl step s xs + d"
proof (induction xs arbitrary: s)
  case Nil
  show ?case by simp
next
  case (Cons x xs)
  have "foldl step (s + d) (x # xs) = foldl step (step s x + d) xs"
    by (simp add: assms)
  also have "\<dots> = foldl step (step s x) xs + d" by (rule Cons.IH)
  finally show ?case by simp
qed

lemma foldl_from_zero:
  fixes s :: int
  assumes "\<And>s d x. step (s + d) x = step s x + d"
  shows "foldl step s xs = s + foldl step 0 xs"
  using foldl_shift[where step = step and d = s and s = 0 and xs = xs] assms by simp

lemma foldl_add_cond:
  "foldl (\<lambda>s x. if P x then s + g x else s) (s :: int) xs =
     s + foldl (\<lambda>s x. if P x then s + g x else s) 0 xs"
  by (rule foldl_from_zero) simp

lemma foldl_sub_cond:
  "foldl (\<lambda>s x. if P x then s - g x else s) (s :: int) xs =
     s + foldl (\<lambda>s x. if P x then s - g x else s) 0 xs"
  by (rule foldl_from_zero) simp

lemma foldl_add:
  "foldl (\<lambda>s x. s + g x) (s :: int) xs = s + foldl (\<lambda>s x. s + g x) 0 xs"
  by (rule foldl_from_zero) simp

lemma foldl_sub:
  "foldl (\<lambda>s x. s - g x) (s :: int) xs = s + foldl (\<lambda>s x. s - g x) 0 xs"
  by (rule foldl_from_zero) simp

lemma passedPawns_add: "passedPawns b a s = s + passedPawns b a 0"
  unfolding passedPawns_def Let_def
  by (subst foldl_sub_cond, subst foldl_add_cond, subst (2) foldl_sub_cond) simp

lemma rookTerms_add: "rookTerms b a s = s + rookTerms b a 0"
  unfolding rookTerms_def Let_def
  apply (subst foldl_sub_cond)
  apply (subst foldl_add_cond)
  apply (subst foldl_sub)
  apply (subst foldl_add)
  apply (subst (2) foldl_sub_cond)
  apply (subst (2) foldl_add_cond)
  apply (subst (2) foldl_sub)
  apply simp
  done


lemma pawnStructureFile_terms:
  "pawnStructureFile wpf bpf score file =
     score + doubledPawnTerm (wpf ! nat file) - doubledPawnTerm (bpf ! nat file)
       + (if isolatedOn wpf file then ISOLATED_PAWN_PENALTY else 0)
       - (if isolatedOn bpf file then ISOLATED_PAWN_PENALTY else 0)"
  by (simp add: pawnStructureFile_def Let_def)

lemma pawnStructure_sum:
  "pawnStructure wpf bpf s =
     s + sum_list (map (\<lambda>file. doubledPawnTerm (wpf ! nat file)) [0, 1, 2, 3, 4, 5, 6, 7])
       - sum_list (map (\<lambda>file. doubledPawnTerm (bpf ! nat file)) [0, 1, 2, 3, 4, 5, 6, 7])
       + foldl (\<lambda>s file.
            s + (if isolatedOn wpf file then ISOLATED_PAWN_PENALTY else 0)
              - (if isolatedOn bpf file then ISOLATED_PAWN_PENALTY else 0))
          0 [0, 1, 2, 3, 4, 5, 6, 7]"
  by (simp add: pawnStructure_def pawnStructureFile_terms)

lemma doubledPawnTerm_count:
  "doubledPawnTerm n = (if 2 \<le> n then - 15 * n else 0)"
  by (simp add: doubledPawnTerm_def)

lemma staticScore_doubled:
  assumes "length (squares b) = 64" "list_all validPiece (squares b)"
  shows "staticScore b + mobilityTerm b =
     termsOtherThanDoubledPawns b
       + sum_list (map (\<lambda>file. if 2 \<le> pawnsOnFile b WHITE file
                                then - 15 * pawnsOnFile b WHITE file else 0)
           [0, 1, 2, 3, 4, 5, 6, 7])
       - sum_list (map (\<lambda>file. if 2 \<le> pawnsOnFile b BLACK file
                                then - 15 * pawnsOnFile b BLACK file else 0)
           [0, 1, 2, 3, 4, 5, 6, 7])"
proof -
  note pf = evalPieces_perFile[OF assms]
  have w: "doubledPawnTerm (whitePawnsPerFile (evalPieces b) ! nat f) =
      (if 2 \<le> pawnsOnFile b WHITE f then - 15 * pawnsOnFile b WHITE f else 0)"
    if "0 \<le> f" "f < 8" for f
    using pf(1)[OF that] by (simp add: doubledPawnTerm_count)
  have k: "doubledPawnTerm (blackPawnsPerFile (evalPieces b) ! nat f) =
      (if 2 \<le> pawnsOnFile b BLACK f then - 15 * pawnsOnFile b BLACK f else 0)"
    if "0 \<le> f" "f < 8" for f
    using pf(2)[OF that] by (simp add: doubledPawnTerm_count)
  have ws: "sum_list (map (\<lambda>file. doubledPawnTerm (whitePawnsPerFile (evalPieces b) ! nat file))
        [0, 1, 2, 3, 4, 5, 6, 7]) =
      sum_list (map (\<lambda>file. if 2 \<le> pawnsOnFile b WHITE file
                                then - 15 * pawnsOnFile b WHITE file else 0)
        [0, 1, 2, 3, 4, 5, 6, 7])"
    by (intro arg_cong[where f = sum_list] map_cong refl w) auto
  have ks: "sum_list (map (\<lambda>file. doubledPawnTerm (blackPawnsPerFile (evalPieces b) ! nat file))
        [0, 1, 2, 3, 4, 5, 6, 7]) =
      sum_list (map (\<lambda>file. if 2 \<le> pawnsOnFile b BLACK file
                                then - 15 * pawnsOnFile b BLACK file else 0)
        [0, 1, 2, 3, 4, 5, 6, 7])"
    by (intro arg_cong[where f = sum_list] map_cong refl k) auto
  have "staticScore b + mobilityTerm b =
     termsOtherThanDoubledPawns b
       + sum_list (map (\<lambda>file. doubledPawnTerm (whitePawnsPerFile (evalPieces b) ! nat file))
           [0, 1, 2, 3, 4, 5, 6, 7])
       - sum_list (map (\<lambda>file. doubledPawnTerm (blackPawnsPerFile (evalPieces b) ! nat file))
           [0, 1, 2, 3, 4, 5, 6, 7])"
    unfolding staticScore_def termsOtherThanDoubledPawns_def isolatedPawnTerms_def Let_def
    by (subst rookTerms_add, subst passedPawns_add, subst pawnStructure_sum) simp
  then show ?thesis unfolding ws ks .
qed

lemma evaluatePosition_score:
  "fst (evaluatePosition b) =
     (if turn b = WHITE then 1 else - 1) * (staticScore b + mobilityTerm b)"
  by (simp add: evaluatePosition_def mobilityTerm_def Let_def)

text \<open>
  C7 as the code has it. On a board of 64 piece codes the score that \<open>evaluatePosition\<close>
  returns is, from the side to move, the sum of the terms other than the doubled-pawn
  terms, plus \<open>-15 n\<close> for every file that holds \<open>n \<ge> 2\<close> white pawns, minus \<open>-15 n\<close> for
  every file that holds \<open>n \<ge> 2\<close> black pawns: each pawn of a doubled file costs its side
  15, the first one included.
\<close>

theorem doubled_pawn_terms_in_evaluation:
  assumes "length (squares b) = 64" and "list_all validPiece (squares b)"
  shows "fst (evaluatePosition b) =
     (if turn b = WHITE then 1 else - 1) *
       (termsOtherThanDoubledPawns b
        + sum_list (map (\<lambda>file. if 2 \<le> pawnsOnFile b WHITE file
                                 then - 15 * pawnsOnFile b WHITE file else 0)
            [0, 1, 2, 3, 4, 5, 6, 7])
        - sum_list (map (\<lambda>file. if 2 \<le> pawnsOnFile b BLACK file
                                 then - 15 * pawnsOnFile b BLACK file else 0)
            [0, 1, 2, 3, 4, 5, 6, 7]))"
  unfolding evaluatePosition_score staticScore_doubled[OF assms] ..

lemma doubledEPawns_squares:
  "length (squares doubledEPawns) = 64" "list_all validPiece (squares doubledEPawns)"
  by code_simp+

lemma doubledEPawns_values:
  "map (pawnsOnFile doubledEPawns WHITE) [0, 1, 2, 3, 4, 5, 6, 7] = [0, 0, 0, 1, 2, 0, 0, 0]"
  "map (pawnsOnFile doubledEPawns BLACK) [0, 1, 2, 3, 4, 5, 6, 7] = [0, 0, 0, 0, 0, 0, 0, 0]"
  "termsOtherThanDoubledPawns doubledEPawns = 453"
  "fst (evaluatePosition doubledEPawns) = 423"
  by code_simp+

theorem doubled_pawn_terms_in_evaluation_witness:
  "length (squares doubledEPawns) = 64 \<and> list_all validPiece (squares doubledEPawns) \<and>
   fst (evaluatePosition doubledEPawns) =
     (if turn doubledEPawns = WHITE then 1 else - 1) *
       (termsOtherThanDoubledPawns doubledEPawns
        + sum_list (map (\<lambda>file. if 2 \<le> pawnsOnFile doubledEPawns WHITE file
                                 then - 15 * pawnsOnFile doubledEPawns WHITE file else 0)
            [0, 1, 2, 3, 4, 5, 6, 7])
        - sum_list (map (\<lambda>file. if 2 \<le> pawnsOnFile doubledEPawns BLACK file
                                 then - 15 * pawnsOnFile doubledEPawns BLACK file else 0)
            [0, 1, 2, 3, 4, 5, 6, 7])) \<and>
   pawnsOnFile doubledEPawns WHITE 4 = 2 \<and>
   termsOtherThanDoubledPawns doubledEPawns = 453 \<and>
   fst (evaluatePosition doubledEPawns) = 453 - 15 * 2"
  using doubled_pawn_terms_in_evaluation [OF doubledEPawns_squares]
    doubledEPawns_squares doubledEPawns_values
  by simp

text \<open>
  The claim as stated fails on the position with white pawns on d2, e2 and e3: the e-file
  holds two white pawns, no pawn is isolated, and the pawn structure loop takes 30 from
  the score, not 15.
\<close>

theorem doubled_pawn_term_counterexample:
  "whitePawnsPerFile (evalPieces doubledEPawns) = [0, 0, 0, 1, 2, 0, 0, 0] \<and>
   blackPawnsPerFile (evalPieces doubledEPawns) = [0, 0, 0, 0, 0, 0, 0, 0] \<and>
   pawnStructure (whitePawnsPerFile (evalPieces doubledEPawns))
     (blackPawnsPerFile (evalPieces doubledEPawns)) 0 = - 30 \<and>
   doubledPawnTerm 2 = - 30 \<and> doubledPawnTerm 2 \<noteq> - 15 * (2 - 1)"
  by code_simp

section \<open>The board after static evaluation\<close>

lemma evaluatePosition_board:
  "snd (evaluatePosition b) =
     (snd (getLegalMoves ((snd (getLegalMoves (b\<lparr>turn := WHITE\<rparr>)))\<lparr>turn := BLACK\<rparr>)))
       \<lparr>turn := turn b\<rparr>"
  by (simp add: evaluatePosition_def Let_def)

text \<open>
  C9, at the position after 1. e2e4 (black to move, en passant target e3): with the side
  to move set to white, the white pawns on d2 and f2 get en passant captures onto e3;
  unmaking such a move puts a black pawn on e2. After \<open>evaluatePosition\<close> the square e2
  (12), empty before, holds a black pawn.
\<close>

theorem static_eval_changes_board:
  "sq afterE4 12 = EMPTY \<and>
   sq (snd (evaluatePosition afterE4)) 12 = (PAWN OR BLACK) \<and>
   snd (evaluatePosition afterE4) \<noteq> afterE4"
  unfolding evaluatePosition_board by code_simp

section \<open>A position text that is refused\<close>

lemma loadFromFen_few_fields:
  "length (trimSplit fen) < 4 \<Longrightarrow> loadFromFen b fen = Thrown ''Invalid FEN string'' b"
  by (simp add: loadFromFen_def)

lemma loadFromFen_rows:
  "\<not> length (trimSplit fen) < 4 \<Longrightarrow>
   length (splitOn CHR ''/'' (trimSplit fen ! 0)) \<noteq> 8 \<Longrightarrow>
   loadFromFen b fen =
     Thrown ''Invalid FEN: piece placement must have 8 rows''
       (b\<lparr>squares := map (\<lambda>_. EMPTY) (squares b)\<rparr>)"
  by (simp add: loadFromFen_def Let_def)

lemma loadFromFen_rooksAndKings:
  "loadFromFen setupInitialPosition ''r3k2r/8/8/8/8/8/8/R3K2R w KQkq - 0 1''
     = Loaded rooksAndKings"
  by code_simp

text \<open>
  C5, on the initial position with the text \<open>8/8 w - - 0 1\<close>, whose placement field has
  two rows: the call throws, and the board it leaves has all 64 squares empty, so it is
  not the board before the call.
\<close>

theorem loadFromFen_throws_after_clearing:
  "loadFromFen setupInitialPosition ''8/8 w - - 0 1''
     = Thrown ''Invalid FEN: piece placement must have 8 rows''
         (setupInitialPosition\<lparr>squares := replicate 64 EMPTY\<rparr>) \<and>
   setupInitialPosition\<lparr>squares := replicate 64 EMPTY\<rparr> \<noteq> setupInitialPosition"
  by code_simp

section \<open>What the generators produce\<close>

lemma normalMoveI:
  "isSquareOnBoard f \<Longrightarrow> isSquareOnBoard t \<Longrightarrow> f \<noteq> t \<Longrightarrow> sq b f \<noteq> EMPTY \<Longrightarrow>
   sq b f AND COLOR_MASK = turn b \<Longrightarrow> sq b t = EMPTY \<or> sq b t AND COLOR_MASK \<noteq> turn b \<Longrightarrow>
   promo = EMPTY \<or> promo = QUEEN \<or> promo = ROOK \<or> promo = BISHOP \<or> promo = KNIGHT \<Longrightarrow>
   normalMove b (createMove b f t promo False False)"
  unfolding normalMove_def by blast

lemma pawnMovesTo_normal:
  assumes "m \<in> set (pawnMovesTo b f t)" "isSquareOnBoard f" "isSquareOnBoard t" "f \<noteq> t"
    "sq b f \<noteq> EMPTY" "sq b f AND COLOR_MASK = turn b"
    "sq b t = EMPTY \<or> sq b t AND COLOR_MASK \<noteq> turn b"
  shows "normalMove b m"
proof -
  from assms(1) obtain promo where
    "m = createMove b f t promo False False"
    "promo = EMPTY \<or> promo = QUEEN \<or> promo = ROOK \<or> promo = BISHOP \<or> promo = KNIGHT"
    by (auto simp: pawnMovesTo_def Let_def split: if_splits)
  with assms show ?thesis by (simp add: normalMoveI)
qed

lemma pawnPushes_normal:
  assumes "m \<in> set (pawnPushes b f)" "isSquareOnBoard f"
    "sq b f \<noteq> EMPTY" "sq b f AND COLOR_MASK = turn b"
  shows "normalMove b m"
proof -
  define d :: int where "d = (if turn b = WHITE then 8 else - 8)"
  have d: "d \<noteq> 0" "2 * d \<noteq> 0" by (simp_all add: d_def)
  from assms(1) have on: "isSquareOnBoard (f + d)" "sq b (f + d) = EMPTY"
    by (auto simp: pawnPushes_def Let_def d_def split: if_splits)
  from assms(1) consider
    "m \<in> set (pawnMovesTo b f (f + d))" |
    "m = createMove b f (f + 2 * d) EMPTY False False" "isSquareOnBoard (f + 2 * d)"
      "sq b (f + 2 * d) = EMPTY"
    by (auto simp: pawnPushes_def Let_def d_def split: if_splits)
  then show ?thesis
  proof cases
    case 1
    have "f \<noteq> f + d" using d by simp
    moreover have "sq b (f + d) = EMPTY \<or> sq b (f + d) AND COLOR_MASK \<noteq> turn b"
      using on by simp
    ultimately show ?thesis
      using pawnMovesTo_normal[OF 1 assms(2) on(1) _ assms(3,4)] by blast
  next
    case 2
    then show ?thesis using assms d by (auto intro!: normalMoveI)
  qed
qed

lemma pawnCapturesAt_generated:
  assumes "m \<in> set (pawnCapturesAt b f t)" "isSquareOnBoard f"
    "sq b f \<noteq> EMPTY" "sq b f AND COLOR_MASK = turn b" "sq b f AND PIECE_MASK = PAWN"
    "t = f + (if turn b = WHITE then 8 else - 8) + 1 \<or> t = f + (if turn b = WHITE then 8 else - 8) - 1"
  shows "normalMove b m \<or> enPassantMove b m"
proof -
  from assms(1) have on: "isSquareOnBoard t" "\<bar>f mod 8 - t mod 8\<bar> = 1"
    by (auto simp: pawnCapturesAt_def Let_def split: if_splits)
  then have ne: "f \<noteq> t" by auto
  from assms(1) on consider
    "m \<in> set (pawnMovesTo b f t)" "sq b t \<noteq> EMPTY"
      "sq b t AND COLOR_MASK = (if turn b = WHITE then BLACK else WHITE)" |
    "m = createMove b f t EMPTY True False" "t = enPassantSquare b"
    by (auto simp: pawnCapturesAt_def Let_def split: if_splits)
  then show ?thesis
  proof cases
    case 1
    have "sq b t AND COLOR_MASK \<noteq> turn b" using 1(3) by (auto split: if_splits)
    then have "sq b t = EMPTY \<or> sq b t AND COLOR_MASK \<noteq> turn b" by simp
    then have "normalMove b m"
      by (rule pawnMovesTo_normal[OF 1(1) assms(2) on(1) ne assms(3,4)])
    then show ?thesis ..
  next
    case 2
    then show ?thesis using assms on unfolding enPassantMove_def by blast
  qed
qed

lemma generatePawnMoves_generated:
  assumes "m \<in> set (generatePawnMoves b f)" "isSquareOnBoard f"
    "sq b f \<noteq> EMPTY" "sq b f AND COLOR_MASK = turn b" "sq b f AND PIECE_MASK = PAWN"
  shows "generatedMove b m"
proof -
  from assms(1) consider "m \<in> set (pawnPushes b f)"
    | "m \<in> set (pawnCapturesAt b f (f + ((if turn b = WHITE then 8 else - 8) + 1)))"
    | "m \<in> set (pawnCapturesAt b f (f + ((if turn b = WHITE then 8 else - 8) - 1)))"
    by (auto simp: generatePawnMoves_def Let_def)
  then show ?thesis
  proof cases
    case 1
    then show ?thesis using assms pawnPushes_normal by (simp add: generatedMove_def)
  next
    case 2
    then show ?thesis
      using assms pawnCapturesAt_generated[OF 2 assms(2-5)] by (auto simp: generatedMove_def)
  next
    case 3
    then show ?thesis
      using assms pawnCapturesAt_generated[OF 3 assms(2-5)] by (auto simp: generatedMove_def)
  qed
qed

lemma knightMoveTo_normal:
  assumes "m \<in> set (knightMoveTo b f t)" "isSquareOnBoard f" "t \<noteq> f"
    "sq b f \<noteq> EMPTY" "sq b f AND COLOR_MASK = turn b"
  shows "normalMove b m"
proof -
  from assms(1) have "m = createMove b f t EMPTY False False" "isSquareOnBoard t"
    "sq b t = EMPTY \<or> sq b t AND COLOR_MASK \<noteq> turn b"
    by (auto simp: knightMoveTo_def split: if_splits)
  with assms show ?thesis by (auto intro!: normalMoveI)
qed

lemma generateKnightMoves_generated:
  assumes "m \<in> set (generateKnightMoves b f)" "isSquareOnBoard f"
    "sq b f \<noteq> EMPTY" "sq b f AND COLOR_MASK = turn b"
  shows "generatedMove b m"
proof -
  from assms(1) obtain offset where o: "offset \<in> set KNIGHT_MOVES" "m \<in> set (knightMoveTo b f (f + offset))"
    by (auto simp: generateKnightMoves_def)
  then have "f + offset \<noteq> f" by (auto simp: KNIGHT_MOVES_def)
  with o assms knightMoveTo_normal show ?thesis by (simp add: generatedMove_def)
qed

lemma kingStepTo_normal:
  assumes "m \<in> set (kingStepTo b f dir)" "isSquareOnBoard f" "dir \<noteq> 0"
    "sq b f \<noteq> EMPTY" "sq b f AND COLOR_MASK = turn b"
  shows "normalMove b m"
proof -
  from assms(1) have "m = createMove b f (f + dir) EMPTY False False" "isSquareOnBoard (f + dir)"
    "sq b (f + dir) = EMPTY \<or> sq b (f + dir) AND COLOR_MASK \<noteq> turn b"
    by (auto simp: kingStepTo_def Let_def split: if_splits)
  with assms show ?thesis by (auto intro!: normalMoveI)
qed

lemma castlingMoves_castle:
  assumes "m \<in> set (castlingMoves b)"
  shows "castleMove b m"
  using assms unfolding castlingMoves_def castleMove_def Let_def
  by (auto split: if_splits)

lemma QUEEN_DIRECTIONS_nonzero: "dir \<in> set QUEEN_DIRECTIONS \<Longrightarrow> dir \<noteq> 0"
  by (auto simp: QUEEN_DIRECTIONS_def BISHOP_DIRECTIONS_def ROOK_DIRECTIONS_def)

lemma generateKingMoves_generated:
  assumes "m \<in> set (generateKingMoves b f)" "isSquareOnBoard f"
    "sq b f \<noteq> EMPTY" "sq b f AND COLOR_MASK = turn b"
  shows "generatedMove b m"
proof -
  from assms(1) consider dir where "dir \<in> set QUEEN_DIRECTIONS" "m \<in> set (kingStepTo b f dir)"
    | "m \<in> set (castlingMoves b)"
    by (auto simp: generateKingMoves_def)
  then show ?thesis
  proof cases
    case 1
    then show ?thesis
      using assms kingStepTo_normal QUEEN_DIRECTIONS_nonzero by (simp add: generatedMove_def)
  next
    case 2
    then show ?thesis using castlingMoves_castle by (simp add: generatedMove_def)
  qed
qed

lemma slideMoves_normal:
  assumes "m \<in> set (slideMoves b f dir t steps)" "t = f + steps * dir" "1 \<le> steps"
    "isSquareOnBoard f" "sq b f \<noteq> EMPTY" "sq b f AND COLOR_MASK = turn b"
  shows "normalMove b m"
  using assms
proof (induction b f dir t steps rule: slideMoves.induct)
  case (1 b square dir t steps)
  from "1.prems"(1) have g: "isSquareOnBoard t" "dir \<noteq> 0" "\<not> wrapped square steps dir t"
    by (subst (asm) slideMoves.simps, auto split: if_splits)+
  have ne: "square \<noteq> t" using "1.prems"(2,3) g(2) by auto
  show ?case
  proof (cases "sq b t = EMPTY")
    case True
    with "1.prems"(1) g consider "m = createMove b square t EMPTY False False"
      | "m \<in> set (slideMoves b square dir (t + dir) (steps + 1))"
      by (subst (asm) slideMoves.simps) (auto split: if_splits)
    then show ?thesis
    proof cases
      case 1
      then show ?thesis using True g ne "1.prems" by (auto intro!: normalMoveI)
    next
      case 2
      have "t + dir = square + (steps + 1) * dir" using "1.prems"(2) by (simp add: algebra_simps)
      then show ?thesis
        using "1.IH"[OF _ g(3) True 2] g "1.prems" by simp
    qed
  next
    case False
    with "1.prems"(1) g have "m = createMove b square t EMPTY False False"
      "sq b t AND COLOR_MASK \<noteq> turn b"
      by (subst (asm) slideMoves.simps, auto split: if_splits)+
    then show ?thesis using g ne "1.prems" by (auto intro!: normalMoveI)
  qed
qed

lemma generateSlidingMoves_generated:
  assumes "m \<in> set (generateSlidingMoves b f dirs)" "isSquareOnBoard f"
    "sq b f \<noteq> EMPTY" "sq b f AND COLOR_MASK = turn b"
  shows "generatedMove b m"
proof -
  from assms(1) obtain dir where "m \<in> set (slideMoves b f dir (f + dir) 1)"
    by (auto simp: generateSlidingMoves_def)
  then have "normalMove b m"
    using assms by (intro slideMoves_normal[of m b f dir "f + dir" 1]) auto
  then show ?thesis by (simp add: generatedMove_def)
qed

lemma generateMovesFrom_generated:
  assumes "m \<in> set (generateMovesFrom b f)" "isSquareOnBoard f"
  shows "generatedMove b m"
proof -
  from assms(1) have p: "sq b f \<noteq> EMPTY" "sq b f AND COLOR_MASK = turn b"
    by (auto simp: generateMovesFrom_def Let_def split: if_splits)
  from assms(1) p consider
    "sq b f AND PIECE_MASK = PAWN" "m \<in> set (generatePawnMoves b f)"
    | "m \<in> set (generateKnightMoves b f)"
    | dirs where "m \<in> set (generateSlidingMoves b f dirs)"
    | "m \<in> set (generateKingMoves b f)"
    by (auto simp: generateMovesFrom_def Let_def split: if_splits)
  then show ?thesis
    using assms(2) p
    by cases (auto intro: generatePawnMoves_generated generateKnightMoves_generated
        generateSlidingMoves_generated generateKingMoves_generated)
qed

lemma pseudoLegalMoves_generated:
  assumes "m \<in> set (pseudoLegalMoves b)"
  shows "generatedMove b m"
proof -
  from assms obtain n where "n < 64" "m \<in> set (generateMovesFrom b (int n))"
    by (auto simp: pseudoLegalMoves_def)
  then show ?thesis
    by (intro generateMovesFrom_generated[of m b "int n"]) (auto simp: isSquareOnBoard_def)
qed

section \<open>Making and unmaking a generated move\<close>

lemma roundToDouble_exact: "\<bar>x\<bar> \<le> 9007199254740992 \<Longrightarrow> roundToDouble x = x"
  by (simp add: roundToDouble_def)

lemma counter_round_trip:
  "isSafeInteger n \<Longrightarrow> roundToDouble (roundToDouble (n + 1) - 1) = n"
proof -
  assume "isSafeInteger n"
  then have a: "\<bar>n + 1\<bar> \<le> 9007199254740992" "\<bar>n\<bar> \<le> 9007199254740992"
    by (simp_all add: isSafeInteger_def)
  show ?thesis using a by (simp add: roundToDouble_exact)
qed

lemma king_code:
  "validPiece p \<Longrightarrow> p AND PIECE_MASK = KING \<Longrightarrow>
   (p AND COLOR_MASK = WHITE \<longrightarrow> p = 14) \<and> (p AND COLOR_MASK = BLACK \<longrightarrow> p = 22)"
  unfolding validPiece_def by auto

lemma wf_length: "wellFormed b \<Longrightarrow> length (squares b) = 64"
  by (simp add: wellFormed_def)

lemma wf_turn: "wellFormed b \<Longrightarrow> turn b = WHITE \<or> turn b = BLACK"
  by (simp add: wellFormed_def)

lemma wf_valid: "wellFormed b \<Longrightarrow> isSquareOnBoard s \<Longrightarrow> validPiece (sq b s)"
  by (auto simp: wellFormed_def list_all_length sq_def isSquareOnBoard_def)

lemma wf_kings:
  assumes "wellFormed b" "isSquareOnBoard s"
  shows "sq b s = 14 \<Longrightarrow> whiteKingPos b = s" "sq b s = 22 \<Longrightarrow> blackKingPos b = s"
proof -
  have "kingCachesExact b" using assms by (simp add: wellFormed_def)
  moreover have "s \<in> set (map int [0..<64])"
    using assms(2) unfolding isSquareOnBoard_def
    by (auto simp: image_iff intro!: bexI[of _ "nat s"])
  ultimately have k: "(sq b s \<noteq> 14 \<or> whiteKingPos b = s) \<and> (sq b s \<noteq> 22 \<or> blackKingPos b = s)"
    unfolding kingCachesExact_def list_all_iff by auto
  show "sq b s = 14 \<Longrightarrow> whiteKingPos b = s" using k by auto
  show "sq b s = 22 \<Longrightarrow> blackKingPos b = s" using k by auto
qed

lemma wf_king_moves:
  assumes "wellFormed b" "isSquareOnBoard f" "sq b f AND COLOR_MASK = turn b"
    "sq b f AND PIECE_MASK = KING"
  shows "turn b = WHITE \<Longrightarrow> whiteKingPos b = f" "turn b \<noteq> WHITE \<Longrightarrow> blackKingPos b = f"
proof -
  have v: "validPiece (sq b f)" using assms wf_valid by simp
  show "turn b = WHITE \<Longrightarrow> whiteKingPos b = f"
    using king_code[OF v assms(4)] assms wf_kings(1) by simp
  show "turn b \<noteq> WHITE \<Longrightarrow> blackKingPos b = f"
    using king_code[OF v assms(4)] assms wf_kings(2) wf_turn[OF assms(1)] by auto
qed

lemma undo_make_normal:
  assumes wf: "wellFormed b" and sf: "isSafeInteger (fullMoveNumber b)"
    and n: "normalMove b m"
  shows "undoMove (makeMove b m) = (Some m, b)"
proof -
  from n obtain f t promo where m: "m = createMove b f t promo False False"
    and on: "isSquareOnBoard f" "isSquareOnBoard t" and ne: "f \<noteq> t"
    and p: "sq b f \<noteq> EMPTY" "sq b f AND COLOR_MASK = turn b"
    unfolding normalMove_def by blast
  have nn: "nat f \<noteq> nat t" using on ne by (auto simp: isSquareOnBoard_def)
  have len: "nat f < length (squares b)" "nat t < length (squares b)"
    using on wf_length[OF wf] by (auto simp: isSquareOnBoard_def)
  have sqs: "(squares b)[nat f := EMPTY, nat t := x, nat f := squares b ! nat f,
      nat t := squares b ! nat t] = squares b" for x
    using nn by (simp add: list_update_swap[of "nat t" "nat f"])
  have k: "sq b f AND PIECE_MASK = KING \<Longrightarrow> turn b = WHITE \<Longrightarrow> whiteKingPos b = f"
    "sq b f AND PIECE_MASK = KING \<Longrightarrow> turn b \<noteq> WHITE \<Longrightarrow> blackKingPos b = f"
    using wf_king_moves[OF wf on(1) p(2)] by auto
  have "snd (undoMove (makeMove b m)) = b"
    using wf_turn[OF wf] k sqs
    by (intro board.equality)
       (auto simp: m makeMove_def undoMove_def createMove_def Let_def sq_def
          counter_round_trip[OF sf])
  moreover have "fst (undoMove (makeMove b m)) = Some m"
    by (simp add: makeMove_def undoMove_def Let_def)
  ultimately show ?thesis by (simp add: prod_eq_iff)
qed

lemma undo_make_fst: "fst (undoMove (makeMove b m)) = Some m"
  by (simp add: makeMove_def undoMove_def Let_def)

lemma undo_make_enPassant:
  assumes wf: "wellFormed b" and sf: "isSafeInteger (fullMoveNumber b)"
    and n: "enPassantMove b m"
  shows "undoMove (makeMove b m) = (Some m, b)"
proof -
  from n obtain f t where m: "m = createMove b f t EMPTY True False"
    and on: "isSquareOnBoard f" "isSquareOnBoard t" and t: "t = enPassantSquare b"
    and p: "sq b f AND PIECE_MASK = PAWN" "sq b f AND COLOR_MASK = turn b"
    and d: "t = f + (if turn b = WHITE then 8 else - 8) + 1 \<or>
            t = f + (if turn b = WHITE then 8 else - 8) - 1"
    unfolding enPassantMove_def by blast
  have ep: "enPassantConsistent b" using wf by (simp add: wellFormed_def)
  have tn: "t \<noteq> - 1" using on by (auto simp: isSquareOnBoard_def)
  define c where "c = t - (if turn b = WHITE then 8 else - 8)"
  have e: "sq b t = EMPTY" "sq b c = (PAWN OR (if turn b = WHITE then BLACK else WHITE))"
    "isSquareOnBoard c"
    using ep tn t unfolding enPassantConsistent_def c_def isSquareOnBoard_def by auto
  have nn: "nat f \<noteq> nat t" "nat f \<noteq> nat c" "nat t \<noteq> nat c"
    using on e(3) d wf_turn[OF wf] unfolding c_def isSquareOnBoard_def by auto
  have sqs: "(squares b)[nat f := EMPTY, nat t := x, nat c := EMPTY, nat f := squares b ! nat f,
      nat t := EMPTY, nat c := y] = (squares b)[nat t := EMPTY, nat c := y]" for x y
    using nn
    by (metis list_update_overwrite list_update_swap list_update_id)
  have sqs': "(squares b)[nat t := EMPTY, nat c := squares b ! nat c] = squares b"
    using e(1) unfolding sq_def by (metis list_update_id)
  have "snd (undoMove (makeMove b m)) = b"
    using wf_turn[OF wf] p sqs sqs' e(2)
    by (intro board.equality)
       (auto simp: m makeMove_def undoMove_def createMove_def Let_def sq_def c_def
          counter_round_trip[OF sf])
  then show ?thesis using undo_make_fst[of b m] by (simp add: prod_eq_iff)
qed

lemma castleRook_round_trip:
  assumes "length s = 64"
  shows "s ! 5 = EMPTY \<Longrightarrow> s ! 6 = EMPTY \<Longrightarrow>
         uncastleRook ((castleRook (s[4 := EMPTY, 6 := p]) 6)[4 := s ! 4, 6 := EMPTY]) 6 = s"
    and "s ! 3 = EMPTY \<Longrightarrow> s ! 2 = EMPTY \<Longrightarrow>
         uncastleRook ((castleRook (s[4 := EMPTY, 2 := p]) 2)[4 := s ! 4, 2 := EMPTY]) 2 = s"
    and "s ! 61 = EMPTY \<Longrightarrow> s ! 62 = EMPTY \<Longrightarrow>
         uncastleRook ((castleRook (s[60 := EMPTY, 62 := p]) 62)[60 := s ! 60, 62 := EMPTY]) 62 = s"
    and "s ! 59 = EMPTY \<Longrightarrow> s ! 58 = EMPTY \<Longrightarrow>
         uncastleRook ((castleRook (s[60 := EMPTY, 58 := p]) 58)[60 := s ! 60, 58 := EMPTY]) 58 = s"
  using assms
  by (auto simp: castleRook_def uncastleRook_def list_eq_iff_nth_eq nth_list_update)

lemma right_in_pair:
  fixes cr :: int
  shows "cr AND 1 \<noteq> 0 \<Longrightarrow> cr AND (1 OR 2) \<noteq> 0"
    and "cr AND 2 \<noteq> 0 \<Longrightarrow> cr AND (1 OR 2) \<noteq> 0"
    and "cr AND 4 \<noteq> 0 \<Longrightarrow> cr AND (4 OR 8) \<noteq> 0"
    and "cr AND 8 \<noteq> 0 \<Longrightarrow> cr AND (4 OR 8) \<noteq> 0"
proof -
  have a: "cr AND 1 = (cr AND (1 OR 2)) AND 1" "cr AND 2 = (cr AND (1 OR 2)) AND 2"
    "cr AND 4 = (cr AND (4 OR 8)) AND 4" "cr AND 8 = (cr AND (4 OR 8)) AND 8"
    by (simp_all add: and.assoc)
  show "cr AND 1 \<noteq> 0 \<Longrightarrow> cr AND (1 OR 2) \<noteq> 0" using a(1) by (metis and_zero_eq and.commute)
  show "cr AND 2 \<noteq> 0 \<Longrightarrow> cr AND (1 OR 2) \<noteq> 0" using a(2) by (metis and_zero_eq and.commute)
  show "cr AND 4 \<noteq> 0 \<Longrightarrow> cr AND (4 OR 8) \<noteq> 0" using a(3) by (metis and_zero_eq and.commute)
  show "cr AND 8 \<noteq> 0 \<Longrightarrow> cr AND (4 OR 8) \<noteq> 0" using a(4) by (metis and_zero_eq and.commute)
qed

lemma wf_castling_king:
  assumes "wellFormed b"
  shows "castlingRights b AND 1 \<noteq> 0 \<or> castlingRights b AND 2 \<noteq> 0 \<Longrightarrow>
           sq b 4 = 14 \<and> whiteKingPos b = 4"
    and "castlingRights b AND 4 \<noteq> 0 \<or> castlingRights b AND 8 \<noteq> 0 \<Longrightarrow>
           sq b 60 = 22 \<and> blackKingPos b = 60"
proof -
  have c: "castlingConsistent b" using assms by (simp add: wellFormed_def)
  show "castlingRights b AND 1 \<noteq> 0 \<or> castlingRights b AND 2 \<noteq> 0 \<Longrightarrow>
           sq b 4 = 14 \<and> whiteKingPos b = 4"
    using c right_in_pair(1,2)[of "castlingRights b"] wf_kings(1)[OF assms, of 4]
    unfolding castlingConsistent_def isSquareOnBoard_def by auto
  show "castlingRights b AND 4 \<noteq> 0 \<or> castlingRights b AND 8 \<noteq> 0 \<Longrightarrow>
           sq b 60 = 22 \<and> blackKingPos b = 60"
    using c right_in_pair(3,4)[of "castlingRights b"] wf_kings(2)[OF assms, of 60]
    unfolding castlingConsistent_def isSquareOnBoard_def by auto
qed

lemma undo_make_castle:
  assumes wf: "wellFormed b" and sf: "isSafeInteger (fullMoveNumber b)"
    and n: "castleMove b m"
  shows "undoMove (makeMove b m) = (Some m, b)"
proof -
  have len: "length (squares b) = 64" using wf by (rule wf_length)
  note rt = castleRook_round_trip[OF len]
  from n consider
    (wk) "turn b = WHITE" "m = createMove b 4 6 EMPTY False True"
      "castlingRights b AND 1 \<noteq> 0" "sq b 5 = EMPTY" "sq b 6 = EMPTY"
  | (wq) "turn b = WHITE" "m = createMove b 4 2 EMPTY False True"
      "castlingRights b AND 2 \<noteq> 0" "sq b 3 = EMPTY" "sq b 2 = EMPTY"
  | (bk) "turn b \<noteq> WHITE" "m = createMove b 60 62 EMPTY False True"
      "castlingRights b AND 4 \<noteq> 0" "sq b 61 = EMPTY" "sq b 62 = EMPTY"
  | (bq) "turn b \<noteq> WHITE" "m = createMove b 60 58 EMPTY False True"
      "castlingRights b AND 8 \<noteq> 0" "sq b 59 = EMPTY" "sq b 58 = EMPTY"
    unfolding castleMove_def by blast
  then have "snd (undoMove (makeMove b m)) = b"
  proof cases
    case wk
    then show ?thesis
      using wf_castling_king(1)[OF wf] rt(1)[of 14]
      by (intro board.equality)
         (auto simp: makeMove_def undoMove_def createMove_def Let_def sq_def
            counter_round_trip[OF sf])
  next
    case wq
    then show ?thesis
      using wf_castling_king(1)[OF wf] rt(2)[of 14]
      by (intro board.equality)
         (auto simp: makeMove_def undoMove_def createMove_def Let_def sq_def
            counter_round_trip[OF sf])
  next
    case bk
    then show ?thesis
      using wf_castling_king(2)[OF wf] rt(3)[of 22] wf_turn[OF wf]
      by (intro board.equality)
         (auto simp: makeMove_def undoMove_def createMove_def Let_def sq_def
            counter_round_trip[OF sf])
  next
    case bq
    then show ?thesis
      using wf_castling_king(2)[OF wf] rt(4)[of 22] wf_turn[OF wf]
      by (intro board.equality)
         (auto simp: makeMove_def undoMove_def createMove_def Let_def sq_def
            counter_round_trip[OF sf])
  qed
  then show ?thesis using undo_make_fst[of b m] by (simp add: prod_eq_iff)
qed

lemma undo_make_generated:
  "wellFormed b \<Longrightarrow> isSafeInteger (fullMoveNumber b) \<Longrightarrow> generatedMove b m \<Longrightarrow>
   undoMove (makeMove b m) = (Some m, b)"
  unfolding generatedMove_def
  using undo_make_normal undo_make_enPassant undo_make_castle by blast

lemma filterLegal_wellFormed:
  assumes "wellFormed b" "isSafeInteger (fullMoveNumber b)"
    "\<forall>m \<in> set ms. generatedMove b m"
  shows "filterLegal us ms b = (filter (\<lambda>m. \<not> isInCheck (makeMove b m) us) ms, b)"
  using assms(3)
proof (induction ms)
  case Nil
  show ?case by simp
next
  case (Cons m ms)
  have "undoMove (makeMove b m) = (Some m, b)"
    using assms(1,2) Cons.prems by (simp add: undo_make_generated)
  then show ?case using Cons by (simp add: Let_def)
qed

lemma getLegalMoves_wellFormed:
  assumes "wellFormed b" "isSafeInteger (fullMoveNumber b)"
  shows "getLegalMoves b =
    (filter (\<lambda>m. \<not> isInCheck (makeMove b m) (turn b)) (pseudoLegalMoves b), b)"
  unfolding getLegalMoves_def
  using assms pseudoLegalMoves_generated by (intro filterLegal_wellFormed) auto

lemma legal_generated:
  "wellFormed b \<Longrightarrow> isSafeInteger (fullMoveNumber b) \<Longrightarrow>
   m \<in> set (fst (getLegalMoves b)) \<Longrightarrow> generatedMove b m"
  by (simp add: getLegalMoves_wellFormed pseudoLegalMoves_generated)

section \<open>Where a pseudo-legal move goes\<close>

text \<open>Which generator a pseudo-legal move comes from, and the shape of its moves.\<close>

lemma pseudoLegalMoves_cases:
  assumes "m \<in> set (pseudoLegalMoves b)"
  obtains f where "isSquareOnBoard f" "sq b f \<noteq> EMPTY" "sq b f AND COLOR_MASK = turn b"
    "(sq b f AND PIECE_MASK = PAWN \<and> m \<in> set (generatePawnMoves b f)) \<or>
     (sq b f AND PIECE_MASK = KNIGHT \<and> m \<in> set (generateKnightMoves b f)) \<or>
     (sq b f AND PIECE_MASK = BISHOP \<and> m \<in> set (generateSlidingMoves b f BISHOP_DIRECTIONS)) \<or>
     (sq b f AND PIECE_MASK = ROOK \<and> m \<in> set (generateSlidingMoves b f ROOK_DIRECTIONS)) \<or>
     (sq b f AND PIECE_MASK = QUEEN \<and> m \<in> set (generateSlidingMoves b f QUEEN_DIRECTIONS)) \<or>
     (sq b f AND PIECE_MASK = KING \<and> m \<in> set (generateKingMoves b f))"
proof -
  from assms obtain n where n: "n < 64" "m \<in> set (generateMovesFrom b (int n))"
    by (auto simp: pseudoLegalMoves_def)
  have on: "isSquareOnBoard (int n)" using n(1) by (simp add: isSquareOnBoard_def)
  from n(2) have p: "sq b (int n) \<noteq> EMPTY" "sq b (int n) AND COLOR_MASK = turn b"
    by (auto simp: generateMovesFrom_def Let_def split: if_splits)
  from n(2) p have
    "(sq b (int n) AND PIECE_MASK = PAWN \<and> m \<in> set (generatePawnMoves b (int n))) \<or>
     (sq b (int n) AND PIECE_MASK = KNIGHT \<and> m \<in> set (generateKnightMoves b (int n))) \<or>
     (sq b (int n) AND PIECE_MASK = BISHOP \<and> m \<in> set (generateSlidingMoves b (int n) BISHOP_DIRECTIONS)) \<or>
     (sq b (int n) AND PIECE_MASK = ROOK \<and> m \<in> set (generateSlidingMoves b (int n) ROOK_DIRECTIONS)) \<or>
     (sq b (int n) AND PIECE_MASK = QUEEN \<and> m \<in> set (generateSlidingMoves b (int n) QUEEN_DIRECTIONS)) \<or>
     (sq b (int n) AND PIECE_MASK = KING \<and> m \<in> set (generateKingMoves b (int n)))"
    by (simp add: generateMovesFrom_def Let_def split: if_splits)
  with on p show ?thesis using that by blast
qed

text \<open>The fields of a created move.\<close>

lemma createMove_fields [simp]:
  "from_sq (createMove b f t promo ep castle) = f"
  "to_sq (createMove b f t promo ep castle) = t"
  "piece (createMove b f t promo ep castle) = sq b f"
  "promotion (createMove b f t promo ep castle) = promo"
  "isEnPassant (createMove b f t promo ep castle) = ep"
  "isCastle (createMove b f t promo ep castle) = castle"
  "captured (createMove b f t promo ep castle) =
     (if ep then PAWN OR (if turn b = WHITE then BLACK else WHITE) else sq b t)"
  by (simp_all add: createMove_def)

text \<open>Pawn moves: where they go.\<close>

lemma pawnMovesTo_fields:
  "m \<in> set (pawnMovesTo b f t) \<Longrightarrow>
   from_sq m = f \<and> to_sq m = t \<and> piece m = sq b f \<and> \<not> isEnPassant m \<and> \<not> isCastle m \<and>
   captured m = sq b t \<and>
   (promotion m \<noteq> EMPTY \<longrightarrow> f div 8 = (if turn b = WHITE then 6 else 1))"
  by (auto simp: pawnMovesTo_def Let_def split: if_splits)

lemma pawnCapturesAt_shape:
  assumes "m \<in> set (pawnCapturesAt b f t)"
  shows "from_sq m = f \<and> to_sq m = t \<and> piece m = sq b f \<and> \<not> isCastle m \<and>
    isSquareOnBoard t \<and> \<bar>f mod 8 - t mod 8\<bar> = 1 \<and>
    ((\<not> isEnPassant m \<and> sq b t \<noteq> EMPTY) \<or>
     (isEnPassant m \<and> t = enPassantSquare b \<and> promotion m = EMPTY))"
proof -
  from assms have on: "isSquareOnBoard t" "\<bar>f mod 8 - t mod 8\<bar> = 1"
    by (auto simp: pawnCapturesAt_def Let_def split: if_splits)
  from assms consider "m \<in> set (pawnMovesTo b f t)" "sq b t \<noteq> EMPTY"
    | "m = createMove b f t EMPTY True False" "t = enPassantSquare b"
    by (auto simp: pawnCapturesAt_def Let_def split: if_splits)
  then show ?thesis
  proof cases
    case 1
    then show ?thesis using on pawnMovesTo_fields[OF 1(1)] by simp
  next
    case 2
    then show ?thesis using on by simp
  qed
qed

lemma pawnPushes_shape:
  assumes "m \<in> set (pawnPushes b f)"
  defines "d \<equiv> (if turn b = WHITE then 8 else - 8 :: int)"
  shows "from_sq m = f \<and> piece m = sq b f \<and> \<not> isCastle m \<and> \<not> isEnPassant m \<and>
    sq b (f + d) = EMPTY \<and>
    (to_sq m = f + d \<or>
     (to_sq m = f + 2 * d \<and> sq b (f + 2 * d) = EMPTY \<and>
        f div 8 = (if turn b = WHITE then 1 else 6) \<and> promotion m = EMPTY))"
proof -
  from assms(1) have e: "sq b (f + d) = EMPTY"
    by (auto simp: pawnPushes_def Let_def d_def split: if_splits)
  from assms(1) consider "m \<in> set (pawnMovesTo b f (f + d))"
    | "m = createMove b f (f + 2 * d) EMPTY False False" "sq b (f + 2 * d) = EMPTY"
      "f div 8 = (if turn b = WHITE then 1 else 6)"
    by (auto simp: pawnPushes_def Let_def d_def split: if_splits)
  then show ?thesis
  proof cases
    case 1
    then show ?thesis using e pawnMovesTo_fields[OF 1] by simp
  next
    case 2
    then show ?thesis using e by simp
  qed
qed

lemma generatePawnMoves_cases:
  assumes "m \<in> set (generatePawnMoves b f)"
  obtains "m \<in> set (pawnPushes b f)"
  | t where "m \<in> set (pawnCapturesAt b f t)"
      "t = f + (if turn b = WHITE then 8 else - 8) + 1 \<or>
       t = f + (if turn b = WHITE then 8 else - 8) - 1"
  using assms by (auto simp: generatePawnMoves_def Let_def add.assoc)

text \<open>Knight, king and sliding moves: their fields.\<close>

lemma knight_move_shape:
  assumes "m \<in> set (generateKnightMoves b f)"
  shows "\<exists>offset \<in> set KNIGHT_MOVES. m = createMove b f (f + offset) EMPTY False False \<and>
     isSquareOnBoard (f + offset) \<and>
     \<bar>f mod 8 - (f + offset) mod 8\<bar> \<le> 2 \<and> \<bar>f div 8 - (f + offset) div 8\<bar> \<le> 2"
proof -
  from assms obtain offset where o: "offset \<in> set KNIGHT_MOVES"
    "m \<in> set (knightMoveTo b f (f + offset))"
    by (auto simp: generateKnightMoves_def)
  from o(2) have "m = createMove b f (f + offset) EMPTY False False \<and>
     isSquareOnBoard (f + offset) \<and>
     \<bar>f mod 8 - (f + offset) mod 8\<bar> \<le> 2 \<and> \<bar>f div 8 - (f + offset) div 8\<bar> \<le> 2"
    by (auto simp: knightMoveTo_def split: if_splits)
  with o(1) show ?thesis by blast
qed

lemma king_move_shape:
  assumes "m \<in> set (generateKingMoves b f)" "\<not> isCastle m"
  shows "\<exists>dir \<in> set QUEEN_DIRECTIONS. m = createMove b f (f + dir) EMPTY False False \<and>
     isSquareOnBoard (f + dir) \<and> \<bar>f mod 8 - (f + dir) mod 8\<bar> \<le> 1"
proof -
  from assms consider dir where "dir \<in> set QUEEN_DIRECTIONS" "m \<in> set (kingStepTo b f dir)"
    | "m \<in> set (castlingMoves b)"
    by (auto simp: generateKingMoves_def)
  then show ?thesis
  proof cases
    case 1
    from 1(2) have a: "m = createMove b f (f + dir) EMPTY False False" "isSquareOnBoard (f + dir)"
      "\<bar>f mod 8 - (f + dir) mod 8\<bar> \<le> 1 \<or> dir = 8 \<or> dir = - 8"
      by (auto simp: kingStepTo_def Let_def split: if_splits)
    have "\<bar>f mod 8 - (f + dir) mod 8\<bar> \<le> 1"
      using a(3) by auto
    with 1(1) a show ?thesis by blast
  next
    case 2
    then have "isCastle m"
      by (auto simp: castlingMoves_def Let_def split: if_splits)
    with assms(2) show ?thesis by simp
  qed
qed

section \<open>Captures are attacks\<close>

text \<open>
  A sliding move runs along a clear ray, and along a clear ray the attack test finds the
  piece at its start. So the target of every pseudo-legal capture is a square that the
  side to move attacks.
\<close>

lemma slideMoves_ray:
  assumes "m \<in> set (slideMoves b f dir t s)" "t = f + s * dir" "1 \<le> s"
    "\<forall>i. 1 \<le> i \<and> i < s \<longrightarrow>
       isSquareOnBoard (f + i * dir) \<and> \<not> wrapped f i dir (f + i * dir) \<and> sq b (f + i * dir) = EMPTY"
  shows "\<exists>k. s \<le> k \<and> m = createMove b f (f + k * dir) EMPTY False False \<and> clearRay b f dir k"
  using assms
proof (induction b f dir t s rule: slideMoves.induct)
  case (1 b square dir t steps)
  from "1.prems"(1) have g: "isSquareOnBoard t" "dir \<noteq> 0" "\<not> wrapped square steps dir t"
    by (subst (asm) slideMoves.simps, auto split: if_splits)+
  have here: "clearRay b square dir steps"
    unfolding clearRay_def
  proof (intro conjI allI impI)
    show "dir \<noteq> 0" by (rule g)
  next
    fix i assume "1 \<le> i \<and> i \<le> steps"
    then consider "i < steps" | "i = steps" by linarith
    then show "isSquareOnBoard (square + i * dir)"
      using "1.prems"(2,4) g(1) \<open>1 \<le> i \<and> i \<le> steps\<close> by cases auto
  next
    fix i assume "1 \<le> i \<and> i \<le> steps"
    then consider "i < steps" | "i = steps" by linarith
    then show "\<not> wrapped square i dir (square + i * dir)"
      using "1.prems"(2,4) g(3) \<open>1 \<le> i \<and> i \<le> steps\<close> by cases auto
  next
    fix i assume "1 \<le> i \<and> i < steps"
    then show "sq b (square + i * dir) = EMPTY" using "1.prems"(4) by simp
  qed
  show ?case
  proof (cases "sq b t = EMPTY")
    case True
    with "1.prems"(1) g consider "m = createMove b square t EMPTY False False"
      | "m \<in> set (slideMoves b square dir (t + dir) (steps + 1))"
      by (subst (asm) slideMoves.simps) (auto split: if_splits)
    then show ?thesis
    proof cases
      case 1
      then show ?thesis using here "1.prems"(2) by blast
    next
      case 2
      have nx: "t + dir = square + (steps + 1) * dir"
        using "1.prems"(2) by (simp add: algebra_simps)
      have pre: "\<forall>i. 1 \<le> i \<and> i < steps + 1 \<longrightarrow>
         isSquareOnBoard (square + i * dir) \<and> \<not> wrapped square i dir (square + i * dir) \<and>
         sq b (square + i * dir) = EMPTY"
      proof (intro allI impI)
        fix i assume i: "1 \<le> i \<and> i < steps + 1"
        then consider "i < steps" | "i = steps" by linarith
        then show "isSquareOnBoard (square + i * dir) \<and> \<not> wrapped square i dir (square + i * dir) \<and>
           sq b (square + i * dir) = EMPTY"
          using "1.prems"(2,4) g True i by cases auto
      qed
      have "\<exists>k. steps + 1 \<le> k \<and> m = createMove b square (square + k * dir) EMPTY False False \<and>
          clearRay b square dir k"
        using "1.IH"[OF _ g(3) True 2 nx _ pre] g "1.prems"(3) by simp
      then show ?thesis by (metis add_le_same_cancel1 le_add_same_cancel1 linorder_le_cases zle_add1_eq_le order_trans zero_le_one)
    qed
  next
    case False
    with "1.prems"(1) g have "m = createMove b square t EMPTY False False"
      by (subst (asm) slideMoves.simps, auto split: if_splits)+
    then show ?thesis using here "1.prems"(2) by blast
  qed
qed

lemma generateSlidingMoves_ray:
  assumes "m \<in> set (generateSlidingMoves b f dirs)"
  shows "\<exists>dir \<in> set dirs. \<exists>k. 1 \<le> k \<and> m = createMove b f (f + k * dir) EMPTY False False \<and>
     clearRay b f dir k"
proof -
  from assms obtain dir where d: "dir \<in> set dirs" "m \<in> set (slideMoves b f dir (f + dir) 1)"
    by (auto simp: generateSlidingMoves_def)
  have "\<exists>k. 1 \<le> k \<and> m = createMove b f (f + k * dir) EMPTY False False \<and> clearRay b f dir k"
    by (rule slideMoves_ray[OF d(2)]) auto
  with d(1) show ?thesis by blast
qed

lemma wrapped_reverse:
  "wrapped (f + k * dir) (k - i + 1) (- dir) (f + (i - 1) * dir) = wrapped f i dir (f + i * dir)"
proof -
  have a: "f + k * dir + (k - i + 1 - 1) * - dir = f + i * dir"
    by (simp add: algebra_simps)
  show ?thesis
    unfolding wrapped_def a by (auto simp: abs_minus_commute)
qed

lemma clearRay_on:
  "clearRay b f dir k \<Longrightarrow> 1 \<le> i \<Longrightarrow> i \<le> k \<Longrightarrow>
   isSquareOnBoard (f + i * dir) \<and> \<not> wrapped f i dir (f + i * dir)"
  by (simp add: clearRay_def)

lemma clearRay_empty:
  "clearRay b f dir k \<Longrightarrow> 1 \<le> i \<Longrightarrow> i < k \<Longrightarrow> sq b (f + i * dir) = EMPTY"
  by (simp add: clearRay_def)

lemma clearRay_dir: "clearRay b f dir k \<Longrightarrow> dir \<noteq> 0"
  by (simp add: clearRay_def)

lemma rayAttacks_along:
  assumes c: "clearRay b f dir k" and on: "isSquareOnBoard f"
    and att: "sq b f \<noteq> EMPTY" "sq b f AND COLOR_MASK = c"
      "sq b f AND PIECE_MASK = QUEEN \<or>
       (sq b f AND PIECE_MASK = BISHOP \<and> - dir \<in> set BISHOP_DIRECTIONS) \<or>
       (sq b f AND PIECE_MASK = ROOK \<and> - dir \<in> set ROOK_DIRECTIONS)"
    and j: "1 \<le> j" "j \<le> k"
  shows "rayAttacks b (f + k * dir) c (- dir) (f + (k - j) * dir) j"
  using j
proof (induction "nat (k - j)" arbitrary: j)
  case 0
  then have jk: "j = k" by simp
  have "\<not> wrapped f 1 dir (f + 1 * dir)"
    using clearRay_on[OF c, of 1] jk "0.prems" by simp
  then have nw: "\<not> wrapped (f + k * dir) k (- dir) f"
    using wrapped_reverse[of f k dir 1] by simp
  have d: "- dir \<noteq> 0" using clearRay_dir[OF c] by simp
  have "rayAttacks b (f + k * dir) c (- dir) f k"
    by (subst rayAttacks.simps) (use on att nw d in simp)
  then show ?case by (simp add: jk)
next
  case (Suc n)
  then have lt: "j < k" by linarith
  define i where "i = k - j"
  have i: "1 \<le> i" "i < k" "i + 1 \<le> k" using lt Suc.prems by (simp_all add: i_def)
  have onb: "isSquareOnBoard (f + i * dir)"
    using clearRay_on[OF c, of i] i by simp
  have e: "sq b (f + i * dir) = EMPTY"
    using clearRay_empty[OF c, of i] i by simp
  have "\<not> wrapped f (i + 1) dir (f + (i + 1) * dir)"
    using clearRay_on[OF c, of "i + 1"] i by simp
  then have nw: "\<not> wrapped (f + k * dir) j (- dir) (f + i * dir)"
    using wrapped_reverse[of f k dir "i + 1"] by (simp add: i_def)
  have d: "- dir \<noteq> 0" using clearRay_dir[OF c] by simp
  have nx: "f + i * dir + - dir = f + (k - (j + 1)) * dir"
    by (simp add: i_def algebra_simps)
  have "nat (k - (j + 1)) = n" using Suc.hyps(2) by linarith
  then have "rayAttacks b (f + k * dir) c (- dir) (f + (k - (j + 1)) * dir) (j + 1)"
    using Suc.hyps(1)[of "j + 1"] Suc.prems lt by simp
  then have r: "rayAttacks b (f + k * dir) c (- dir) (f + i * dir + - dir) (j + 1)"
    by (simp only: nx)
  have "rayAttacks b (f + k * dir) c (- dir) (f + i * dir) j"
    by (subst rayAttacks.simps) (use onb e nw d r in simp)
  then show ?case by (simp add: i_def)
qed

lemma neg_BISHOP_DIRECTIONS: "dir \<in> set BISHOP_DIRECTIONS \<Longrightarrow> - dir \<in> set BISHOP_DIRECTIONS"
  by (auto simp: BISHOP_DIRECTIONS_def)

lemma neg_ROOK_DIRECTIONS: "dir \<in> set ROOK_DIRECTIONS \<Longrightarrow> - dir \<in> set ROOK_DIRECTIONS"
  by (auto simp: ROOK_DIRECTIONS_def)

lemma neg_QUEEN_DIRECTIONS: "dir \<in> set QUEEN_DIRECTIONS \<Longrightarrow> - dir \<in> set QUEEN_DIRECTIONS"
  by (auto simp: QUEEN_DIRECTIONS_def BISHOP_DIRECTIONS_def ROOK_DIRECTIONS_def)

lemma neg_KNIGHT_MOVES: "o' \<in> set KNIGHT_MOVES \<Longrightarrow> - o' \<in> set KNIGHT_MOVES"
  by (auto simp: KNIGHT_MOVES_def)

lemma sub_QUEEN_DIRECTIONS:
  "dir \<in> set BISHOP_DIRECTIONS \<Longrightarrow> dir \<in> set QUEEN_DIRECTIONS"
  "dir \<in> set ROOK_DIRECTIONS \<Longrightarrow> dir \<in> set QUEEN_DIRECTIONS"
  by (auto simp: QUEEN_DIRECTIONS_def)

lemma pawn_capture_attacks:
  assumes "m \<in> set (pawnCapturesAt b f t)"
    "t = f + (if turn b = WHITE then 8 else - 8) + 1 \<or>
     t = f + (if turn b = WHITE then 8 else - 8) - 1"
    "isSquareOnBoard f" "sq b f \<noteq> EMPTY" "sq b f AND COLOR_MASK = turn b"
    "sq b f AND PIECE_MASK = PAWN"
  shows "pawnAttacks b (to_sq m) (turn b)"
proof -
  have s: "to_sq m = t" "\<bar>f mod 8 - t mod 8\<bar> = 1"
    using pawnCapturesAt_shape[OF assms(1)] by simp_all
  have a: "\<bar>t mod 8 - f mod 8\<bar> = 1" using s(2) by (simp only: abs_minus_commute)
  define pd :: int where "pd = (if turn b = WHITE then - 8 else 8)"
  from assms(2) have "f = t + (pd + 1) \<or> f = t + (pd - 1)"
    unfolding pd_def by (cases "turn b = WHITE") auto
  then obtain offset where o: "offset \<in> set [pd + 1, pd - 1]" "t + offset = f" by auto
  have "isSquareOnBoard (t + offset) \<and> \<bar>t mod 8 - (t + offset) mod 8\<bar> = 1 \<and>
      sq b (t + offset) \<noteq> EMPTY \<and> sq b (t + offset) AND PIECE_MASK = PAWN \<and>
      sq b (t + offset) AND COLOR_MASK = turn b"
    unfolding o(2) using assms(3-6) a by simp
  then show ?thesis
    unfolding pawnAttacks_def Let_def list_ex_iff s(1) pd_def[symmetric] using o(1) by blast
qed

lemma knight_move_attacks:
  assumes "m \<in> set (generateKnightMoves b f)"
    "isSquareOnBoard f" "sq b f \<noteq> EMPTY" "sq b f AND COLOR_MASK = turn b"
    "sq b f AND PIECE_MASK = KNIGHT"
  shows "knightAttacks b (to_sq m) (turn b)"
proof -
  from knight_move_shape[OF assms(1)] obtain offset where o: "offset \<in> set KNIGHT_MOVES"
    "m = createMove b f (f + offset) EMPTY False False"
    "\<bar>f mod 8 - (f + offset) mod 8\<bar> \<le> 2" "\<bar>f div 8 - (f + offset) div 8\<bar> \<le> 2"
    by blast
  have a: "\<bar>(f + offset) mod 8 - f mod 8\<bar> \<le> 2" "\<bar>(f + offset) div 8 - f div 8\<bar> \<le> 2"
    using o(3,4) by (simp_all only: abs_minus_commute)
  have n: "- offset \<in> set KNIGHT_MOVES" using o(1) by (rule neg_KNIGHT_MOVES)
  have t: "to_sq m = f + offset" using o(2) by simp
  have e: "f + offset + - offset = f" by simp
  have "isSquareOnBoard (f + offset + - offset) \<and>
      \<bar>(f + offset) mod 8 - (f + offset + - offset) mod 8\<bar> \<le> 2 \<and>
      \<bar>(f + offset) div 8 - (f + offset + - offset) div 8\<bar> \<le> 2 \<and>
      sq b (f + offset + - offset) \<noteq> EMPTY \<and>
      sq b (f + offset + - offset) AND PIECE_MASK = KNIGHT \<and>
      sq b (f + offset + - offset) AND COLOR_MASK = turn b"
    unfolding e using assms(2-5) a by simp
  then show ?thesis
    unfolding knightAttacks_def Let_def list_ex_iff t using n by blast
qed

lemma king_move_attacks:
  assumes "m \<in> set (generateKingMoves b f)" "\<not> isCastle m"
    "isSquareOnBoard f" "sq b f \<noteq> EMPTY" "sq b f AND COLOR_MASK = turn b"
    "sq b f AND PIECE_MASK = KING"
  shows "kingAttacks b (to_sq m) (turn b)"
proof -
  from king_move_shape[OF assms(1,2)] obtain dir where o: "dir \<in> set QUEEN_DIRECTIONS"
    "m = createMove b f (f + dir) EMPTY False False"
    "\<bar>f mod 8 - (f + dir) mod 8\<bar> \<le> 1"
    by blast
  have a: "\<bar>(f + dir) mod 8 - f mod 8\<bar> \<le> 1"
    using o(3) by (simp only: abs_minus_commute)
  have "- dir \<in> set QUEEN_DIRECTIONS" using o(1) by (rule neg_QUEEN_DIRECTIONS)
  then show ?thesis
    unfolding kingAttacks_def Let_def list_ex_iff
    using assms(3-6) a o(2) by (intro bexI[of _ "- dir"]) simp_all
qed

lemma sliding_move_attacks:
  assumes "m \<in> set (generateSlidingMoves b f dirs)"
    "isSquareOnBoard f" "sq b f \<noteq> EMPTY" "sq b f AND COLOR_MASK = turn b"
    "(sq b f AND PIECE_MASK = QUEEN \<and> dirs = QUEEN_DIRECTIONS) \<or>
     (sq b f AND PIECE_MASK = BISHOP \<and> dirs = BISHOP_DIRECTIONS) \<or>
     (sq b f AND PIECE_MASK = ROOK \<and> dirs = ROOK_DIRECTIONS)"
  shows "sliderAttacks b (to_sq m) (turn b)"
proof -
  from generateSlidingMoves_ray[OF assms(1)] obtain dir k where d: "dir \<in> set dirs" "1 \<le> k"
    "m = createMove b f (f + k * dir) EMPTY False False" "clearRay b f dir k"
    by blast
  have q: "- dir \<in> set QUEEN_DIRECTIONS"
    using assms(5) d(1) neg_QUEEN_DIRECTIONS sub_QUEEN_DIRECTIONS by blast
  have k: "sq b f AND PIECE_MASK = QUEEN \<or>
       (sq b f AND PIECE_MASK = BISHOP \<and> - dir \<in> set BISHOP_DIRECTIONS) \<or>
       (sq b f AND PIECE_MASK = ROOK \<and> - dir \<in> set ROOK_DIRECTIONS)"
    using assms(5) d(1) neg_BISHOP_DIRECTIONS neg_ROOK_DIRECTIONS by blast
  have "rayAttacks b (f + k * dir) (turn b) (- dir) (f + (k - 1) * dir) 1"
    using rayAttacks_along[OF d(4) assms(2,3,4) k, of 1] d(2) by simp
  moreover have "f + k * dir + - dir = f + (k - 1) * dir" by (simp add: algebra_simps)
  ultimately have r: "rayAttacks b (f + k * dir) (turn b) (- dir) (f + k * dir + - dir) 1"
    by (simp only:)
  have t: "to_sq m = f + k * dir" using d(3) by simp
  show ?thesis
    unfolding sliderAttacks_def list_ex_iff t
  proof (rule bexI[where x = "- dir"])
    show "rayAttacks b (f + k * dir) (turn b) (- dir) (f + k * dir + - dir) 1" by (rule r)
    show "- dir \<in> set QUEEN_DIRECTIONS" by (rule q)
  qed
qed

lemma capture_is_attack:
  assumes "m \<in> set (pseudoLegalMoves b)" "\<not> isCastle m" "\<not> isEnPassant m"
    "sq b (to_sq m) \<noteq> EMPTY"
  shows "isSquareAttacked b (to_sq m) (turn b)"
proof -
  from assms(1) obtain f where f: "isSquareOnBoard f" "sq b f \<noteq> EMPTY"
    "sq b f AND COLOR_MASK = turn b"
    and g: "(sq b f AND PIECE_MASK = PAWN \<and> m \<in> set (generatePawnMoves b f)) \<or>
     (sq b f AND PIECE_MASK = KNIGHT \<and> m \<in> set (generateKnightMoves b f)) \<or>
     (sq b f AND PIECE_MASK = BISHOP \<and> m \<in> set (generateSlidingMoves b f BISHOP_DIRECTIONS)) \<or>
     (sq b f AND PIECE_MASK = ROOK \<and> m \<in> set (generateSlidingMoves b f ROOK_DIRECTIONS)) \<or>
     (sq b f AND PIECE_MASK = QUEEN \<and> m \<in> set (generateSlidingMoves b f QUEEN_DIRECTIONS)) \<or>
     (sq b f AND PIECE_MASK = KING \<and> m \<in> set (generateKingMoves b f))"
    by (rule pseudoLegalMoves_cases)
  from g consider
    (pawn) "sq b f AND PIECE_MASK = PAWN" "m \<in> set (generatePawnMoves b f)"
    | (knight) "sq b f AND PIECE_MASK = KNIGHT" "m \<in> set (generateKnightMoves b f)"
    | (slider) dirs where "m \<in> set (generateSlidingMoves b f dirs)"
      "(sq b f AND PIECE_MASK = QUEEN \<and> dirs = QUEEN_DIRECTIONS) \<or>
       (sq b f AND PIECE_MASK = BISHOP \<and> dirs = BISHOP_DIRECTIONS) \<or>
       (sq b f AND PIECE_MASK = ROOK \<and> dirs = ROOK_DIRECTIONS)"
    | (king) "sq b f AND PIECE_MASK = KING" "m \<in> set (generateKingMoves b f)"
    by blast
  then show ?thesis
  proof cases
    case pawn
    from pawn(2) show ?thesis
    proof (cases rule: generatePawnMoves_cases)
      case 1
      then show ?thesis using pawnPushes_shape[OF 1] assms(4) by auto
    next
      case (2 t)
      then show ?thesis
        using pawn_capture_attacks[OF 2(1,2) f pawn(1)] by (simp add: isSquareAttacked_def)
    qed
  next
    case knight
    then show ?thesis
      using knight_move_attacks[OF knight(2) f knight(1)] by (simp add: isSquareAttacked_def)
  next
    case slider
    then show ?thesis
      using sliding_move_attacks[OF slider(1) f slider(2)] by (simp add: isSquareAttacked_def)
  next
    case king
    then show ?thesis
      using king_move_attacks[OF king(2) assms(2) f king(1)] by (simp add: isSquareAttacked_def)
  qed
qed

section \<open>Legal moves keep the board well formed\<close>

text \<open>The flags that \<open>updateCastlingRights\<close> leaves were set before, and which moves keep them.\<close>

lemma pair_in_right:
  fixes cr :: int
  shows "cr AND (1 OR 2) \<noteq> 0 \<Longrightarrow> cr AND 1 \<noteq> 0 \<or> cr AND 2 \<noteq> 0"
    and "cr AND (4 OR 8) \<noteq> 0 \<Longrightarrow> cr AND 4 \<noteq> 0 \<or> cr AND 8 \<noteq> 0"
proof -
  have a: "cr AND (1 OR 2) = (cr AND 1) OR (cr AND 2)" "cr AND (4 OR 8) = (cr AND 4) OR (cr AND 8)"
    by (simp_all only: bit.conj_disj_distrib)
  show "cr AND (1 OR 2) \<noteq> 0 \<Longrightarrow> cr AND 1 \<noteq> 0 \<or> cr AND 2 \<noteq> 0"
    unfolding a(1) by (auto simp: or_eq_0_iff)
  show "cr AND (4 OR 8) \<noteq> 0 \<Longrightarrow> cr AND 4 \<noteq> 0 \<or> cr AND 8 \<noteq> 0"
    unfolding a(2) by (auto simp: or_eq_0_iff)
qed

lemma ucr_WK:
  "updateCastlingRights cr f t AND 1 \<noteq> 0 \<Longrightarrow>
   cr AND 1 \<noteq> 0 \<and> f \<noteq> 4 \<and> (f = 0 \<or> t = 0 \<or> (f \<noteq> 7 \<and> t \<noteq> 7))"
  unfolding updateCastlingRights_def Let_def
  by (auto simp: and.assoc split: if_splits)

lemma ucr_WQ:
  "updateCastlingRights cr f t AND 2 \<noteq> 0 \<Longrightarrow> cr AND 2 \<noteq> 0 \<and> f \<noteq> 4 \<and> f \<noteq> 0 \<and> t \<noteq> 0"
  unfolding updateCastlingRights_def Let_def
  by (auto simp: and.assoc split: if_splits)

lemma ucr_BK:
  "updateCastlingRights cr f t AND 4 \<noteq> 0 \<Longrightarrow>
   cr AND 4 \<noteq> 0 \<and> f \<noteq> 60 \<and>
   (f = 0 \<or> t = 0 \<or> f = 7 \<or> t = 7 \<or> f = 56 \<or> t = 56 \<or> (f \<noteq> 63 \<and> t \<noteq> 63))"
  unfolding updateCastlingRights_def Let_def
  by (auto simp: and.assoc split: if_splits)

lemma ucr_BQ:
  "updateCastlingRights cr f t AND 8 \<noteq> 0 \<Longrightarrow>
   cr AND 8 \<noteq> 0 \<and> f \<noteq> 60 \<and> (f = 0 \<or> t = 0 \<or> f = 7 \<or> t = 7 \<or> (f \<noteq> 56 \<and> t \<noteq> 56))"
  unfolding updateCastlingRights_def Let_def
  by (auto simp: and.assoc split: if_splits)



lemma normal_facts:
  assumes "m \<in> set (pseudoLegalMoves b)" "\<not> isCastle m" "\<not> isEnPassant m"
  shows "promotion m \<noteq> EMPTY \<longrightarrow> piece m AND PIECE_MASK = PAWN"
    and "piece m AND PIECE_MASK = KING \<longrightarrow>
           to_sq m - from_sq m \<in> set QUEEN_DIRECTIONS \<and>
           \<bar>from_sq m mod 8 - to_sq m mod 8\<bar> \<le> 1"
    and "piece m AND PIECE_MASK = PAWN \<longrightarrow> \<bar>to_sq m - from_sq m\<bar> = 16 \<longrightarrow>
           to_sq m = from_sq m + 2 * (if turn b = WHITE then 8 else - 8) \<and>
           from_sq m div 8 = (if turn b = WHITE then 1 else 6) \<and>
           sq b (from_sq m + (if turn b = WHITE then 8 else - 8)) = EMPTY \<and>
           sq b (to_sq m) = EMPTY \<and> promotion m = EMPTY"
proof -
  from assms(1) obtain f where f: "isSquareOnBoard f" "sq b f \<noteq> EMPTY"
    "sq b f AND COLOR_MASK = turn b"
    and g: "(sq b f AND PIECE_MASK = PAWN \<and> m \<in> set (generatePawnMoves b f)) \<or>
     (sq b f AND PIECE_MASK = KNIGHT \<and> m \<in> set (generateKnightMoves b f)) \<or>
     (sq b f AND PIECE_MASK = BISHOP \<and> m \<in> set (generateSlidingMoves b f BISHOP_DIRECTIONS)) \<or>
     (sq b f AND PIECE_MASK = ROOK \<and> m \<in> set (generateSlidingMoves b f ROOK_DIRECTIONS)) \<or>
     (sq b f AND PIECE_MASK = QUEEN \<and> m \<in> set (generateSlidingMoves b f QUEEN_DIRECTIONS)) \<or>
     (sq b f AND PIECE_MASK = KING \<and> m \<in> set (generateKingMoves b f))"
    by (rule pseudoLegalMoves_cases)
  from g consider
    (pawn) "sq b f AND PIECE_MASK = PAWN" "m \<in> set (generatePawnMoves b f)"
    | (knight) "sq b f AND PIECE_MASK = KNIGHT" "m \<in> set (generateKnightMoves b f)"
    | (slider) dirs where "m \<in> set (generateSlidingMoves b f dirs)"
      "sq b f AND PIECE_MASK = QUEEN \<or> sq b f AND PIECE_MASK = BISHOP \<or>
       sq b f AND PIECE_MASK = ROOK"
    | (king) "sq b f AND PIECE_MASK = KING" "m \<in> set (generateKingMoves b f)"
    by blast
  then have "(promotion m \<noteq> EMPTY \<longrightarrow> piece m AND PIECE_MASK = PAWN) \<and>
    (piece m AND PIECE_MASK = KING \<longrightarrow>
           to_sq m - from_sq m \<in> set QUEEN_DIRECTIONS \<and>
           \<bar>from_sq m mod 8 - to_sq m mod 8\<bar> \<le> 1) \<and>
    (piece m AND PIECE_MASK = PAWN \<longrightarrow> \<bar>to_sq m - from_sq m\<bar> = 16 \<longrightarrow>
           to_sq m = from_sq m + 2 * (if turn b = WHITE then 8 else - 8) \<and>
           from_sq m div 8 = (if turn b = WHITE then 1 else 6) \<and>
           sq b (from_sq m + (if turn b = WHITE then 8 else - 8)) = EMPTY \<and>
           sq b (to_sq m) = EMPTY \<and> promotion m = EMPTY)"
  proof cases
    case pawn
    from pawn(2) show ?thesis
    proof (cases rule: generatePawnMoves_cases)
      case 1
      note s = pawnPushes_shape[OF 1]
      from s have p: "from_sq m = f" "piece m = sq b f" by simp_all
      from s consider "to_sq m = f + (if turn b = WHITE then 8 else - 8)"
        | "to_sq m = f + 2 * (if turn b = WHITE then 8 else - 8)"
          "sq b (f + 2 * (if turn b = WHITE then 8 else - 8)) = EMPTY"
          "f div 8 = (if turn b = WHITE then 1 else 6)" "promotion m = EMPTY"
        by blast
      then show ?thesis
      proof cases
        case 1
        then have "\<bar>to_sq m - from_sq m\<bar> \<noteq> 16" unfolding p
          by (cases "turn b = WHITE") auto
        then show ?thesis using pawn(1) p by simp
      next
        case 2
        then show ?thesis using pawn(1) p s by simp
      qed
    next
      case (2 t)
      note s = pawnCapturesAt_shape[OF 2(1)]
      from s have p: "from_sq m = f" "piece m = sq b f" "to_sq m = t" by simp_all
      have "\<bar>to_sq m - from_sq m\<bar> \<noteq> 16" unfolding p using 2(2)
        by (cases "turn b = WHITE") auto
      then show ?thesis using pawn(1) p by simp
    qed
  next
    case knight
    from knight_move_shape[OF knight(2)] obtain offset where
      "m = createMove b f (f + offset) EMPTY False False" by blast
    then show ?thesis using knight(1) by simp
  next
    case slider
    from generateSlidingMoves_ray[OF slider(1)] obtain dir k where
      "m = createMove b f (f + k * dir) EMPTY False False" by blast
    then show ?thesis using slider(2) by auto
  next
    case king
    from king_move_shape[OF king(2) assms(2)] obtain dir where d: "dir \<in> set QUEEN_DIRECTIONS"
      "m = createMove b f (f + dir) EMPTY False False"
      "\<bar>f mod 8 - (f + dir) mod 8\<bar> \<le> 1" by blast
    then show ?thesis using king(1) by simp
  qed
  then show "promotion m \<noteq> EMPTY \<longrightarrow> piece m AND PIECE_MASK = PAWN"
    and "piece m AND PIECE_MASK = KING \<longrightarrow>
           to_sq m - from_sq m \<in> set QUEEN_DIRECTIONS \<and>
           \<bar>from_sq m mod 8 - to_sq m mod 8\<bar> \<le> 1"
    and "piece m AND PIECE_MASK = PAWN \<longrightarrow> \<bar>to_sq m - from_sq m\<bar> = 16 \<longrightarrow>
           to_sq m = from_sq m + 2 * (if turn b = WHITE then 8 else - 8) \<and>
           from_sq m div 8 = (if turn b = WHITE then 1 else 6) \<and>
           sq b (from_sq m + (if turn b = WHITE then 8 else - 8)) = EMPTY \<and>
           sq b (to_sq m) = EMPTY \<and> promotion m = EMPTY"
    by blast+
qed

lemma wellFormedI:
  assumes "length (squares b) = 64"
    and "\<And>s. isSquareOnBoard s \<Longrightarrow> validPiece (sq b s)"
    and "turn b = WHITE \<or> turn b = BLACK"
    and "enPassantConsistent b"
    and "\<And>s. isSquareOnBoard s \<Longrightarrow> sq b s = 14 \<Longrightarrow> whiteKingPos b = s"
    and "\<And>s. isSquareOnBoard s \<Longrightarrow> sq b s = 22 \<Longrightarrow> blackKingPos b = s"
    and "castlingConsistent b"
  shows "wellFormed b"
proof -
  have v: "list_all validPiece (squares b)"
    unfolding list_all_length
  proof (intro allI impI)
    fix n assume "n < length (squares b)"
    then have "isSquareOnBoard (int n)" using assms(1) by (simp add: isSquareOnBoard_def)
    from assms(2)[OF this] show "validPiece (squares b ! n)" by (simp add: sq_def)
  qed
  have k: "kingCachesExact b"
    unfolding kingCachesExact_def list_all_iff
  proof
    fix s assume "s \<in> set (map int [0..<64])"
    then have on: "isSquareOnBoard s" by (auto simp: isSquareOnBoard_def)
    show "(sq b s \<noteq> (KING OR WHITE) \<or> whiteKingPos b = s) \<and>
          (sq b s \<noteq> (KING OR BLACK) \<or> blackKingPos b = s)"
      using assms(5)[OF on] assms(6)[OF on] by auto
  qed
  show ?thesis unfolding wellFormed_def using assms(1,3,4,7) v k by simp
qed

lemma makeMove_fields:
  "turn (makeMove b m) = (if turn b = WHITE then BLACK else WHITE)"
  "castlingRights (makeMove b m) = updateCastlingRights (castlingRights b) (from_sq m) (to_sq m)"
  "enPassantSquare (makeMove b m) =
     (if piece m AND PIECE_MASK = PAWN \<and> \<bar>to_sq m - from_sq m\<bar> = 16
      then from_sq m + (if turn b = WHITE then 8 else - 8) else - 1)"
  "whiteKingPos (makeMove b m) =
     (if piece m AND PIECE_MASK = KING \<and> turn b = WHITE then to_sq m else whiteKingPos b)"
  "blackKingPos (makeMove b m) =
     (if piece m AND PIECE_MASK = KING \<and> turn b \<noteq> WHITE then to_sq m else blackKingPos b)"
  "length (squares (makeMove b m)) = length (squares b)"
  by (simp_all add: makeMove_def Let_def castleRook_def)

lemma nth_upd_on:
  "isSquareOnBoard s \<Longrightarrow> isSquareOnBoard f \<Longrightarrow> length xs = 64 \<Longrightarrow>
   (xs[nat f := v]) ! nat s = (if s = f then v else xs ! nat s)"
  by (auto simp: isSquareOnBoard_def nth_list_update)

lemma makeMove_normal_sq:
  assumes "length (squares b) = 64" "isSquareOnBoard f" "isSquareOnBoard t" "isSquareOnBoard s"
  shows "sq (makeMove b (createMove b f t promo False False)) s =
     (if s = t then (if promo \<noteq> EMPTY then promo OR turn b else sq b f)
      else if s = f then EMPTY else sq b s)"
  using assms
  by (simp add: makeMove_def createMove_def Let_def sq_def nth_upd_on)

lemma pawn_code:
  "validPiece p \<Longrightarrow> p AND PIECE_MASK = PAWN \<Longrightarrow>
   (p AND COLOR_MASK = WHITE \<longrightarrow> p = 9) \<and> (p AND COLOR_MASK = BLACK \<longrightarrow> p = 17)"
  unfolding validPiece_def by auto

lemma promoted_code:
  assumes "promo = QUEEN \<or> promo = ROOK \<or> promo = BISHOP \<or> promo = KNIGHT"
    "c = WHITE \<or> c = BLACK"
  shows "validPiece (promo OR c)" "promo OR c \<noteq> 14" "promo OR c \<noteq> 22"
  using assms unfolding validPiece_def by auto

lemma not_queen_dir: "(56::int) \<notin> set QUEEN_DIRECTIONS" "(49::int) \<notin> set QUEEN_DIRECTIONS"
  "(63::int) \<notin> set QUEEN_DIRECTIONS"
  by (simp_all add: QUEEN_DIRECTIONS_def BISHOP_DIRECTIONS_def ROOK_DIRECTIONS_def)

text \<open>The facts about a playable board that the three kinds of move share.\<close>

lemma playable_kings:
  assumes "playable b"
  shows "isSquareOnBoard (whiteKingPos b)" "sq b (whiteKingPos b) = 14"
    "isSquareOnBoard (blackKingPos b)" "sq b (blackKingPos b) = 22"
    "\<And>s. isSquareOnBoard s \<Longrightarrow> (sq b s = 14) = (s = whiteKingPos b)"
    "\<And>s. isSquareOnBoard s \<Longrightarrow> (sq b s = 22) = (s = blackKingPos b)"
proof -
  from assms have wf: "wellFormed b" and kp: "kingsPresent b" by (simp_all add: playable_def)
  show a: "isSquareOnBoard (whiteKingPos b)" "sq b (whiteKingPos b) = 14"
    "isSquareOnBoard (blackKingPos b)" "sq b (blackKingPos b) = 22"
    using kp by (simp_all add: kingsPresent_def)
  show "\<And>s. isSquareOnBoard s \<Longrightarrow> (sq b s = 14) = (s = whiteKingPos b)"
    using wf_kings(1)[OF wf] a(2) by blast
  show "\<And>s. isSquareOnBoard s \<Longrightarrow> (sq b s = 22) = (s = blackKingPos b)"
    using wf_kings(2)[OF wf] a(4) by blast
qed

lemma playable_target:
  assumes pl: "playable b" and pm: "m \<in> set (pseudoLegalMoves b)"
    and fl: "\<not> isCastle m" "\<not> isEnPassant m"
    and tg: "sq b (to_sq m) = EMPTY \<or> sq b (to_sq m) AND COLOR_MASK \<noteq> turn b"
  shows "to_sq m \<noteq> whiteKingPos b" "to_sq m \<noteq> blackKingPos b"
proof -
  from pl have wf: "wellFormed b"
    and nc: "\<not> isInCheck b (if turn b = WHITE then BLACK else WHITE)"
    by (simp_all add: playable_def)
  note k = playable_kings[OF pl]
  note tr = wf_turn[OF wf]
  have att: "sq b (to_sq m) \<noteq> EMPTY \<Longrightarrow> isSquareAttacked b (to_sq m) (turn b)"
    using capture_is_attack[OF pm fl] by simp
  show "to_sq m \<noteq> whiteKingPos b"
  proof
    assume e: "to_sq m = whiteKingPos b"
    then have s: "sq b (to_sq m) = 14" using k(2) by simp
    from tr show False
    proof
      assume "turn b = WHITE"
      then show False using tg s by simp
    next
      assume t: "turn b = BLACK"
      have "isSquareAttacked b (whiteKingPos b) BLACK" using att s e t by simp
      then show False using nc t by (simp add: isInCheck_def)
    qed
  qed
  show "to_sq m \<noteq> blackKingPos b"
  proof
    assume e: "to_sq m = blackKingPos b"
    then have s: "sq b (to_sq m) = 22" using k(4) by simp
    from tr show False
    proof
      assume t: "turn b = WHITE"
      have "isSquareAttacked b (blackKingPos b) WHITE" using att s e t by simp
      then show False using nc t by (simp add: isInCheck_def)
    next
      assume "turn b = BLACK"
      then show False using tg s by simp
    qed
  qed
qed

lemma playable_normal:
  assumes pl: "playable b" and pm: "m \<in> set (pseudoLegalMoves b)" and nm: "normalMove b m"
  shows "wellFormed (makeMove b m) \<and> kingsPresent (makeMove b m) \<and>
         rookHomesKingFree (makeMove b m)"
proof -
  from pl have wf: "wellFormed b" and rh: "rookHomesKingFree b"
    by (simp_all add: playable_def)
  note k = playable_kings[OF pl]
  note tr = wf_turn[OF wf]
  note len = wf_length[OF wf]
  from nm obtain f t promo where m: "m = createMove b f t promo False False"
    and on: "isSquareOnBoard f" "isSquareOnBoard t" and ne: "f \<noteq> t"
    and pf: "sq b f \<noteq> EMPTY" "sq b f AND COLOR_MASK = turn b"
    and tg: "sq b t = EMPTY \<or> sq b t AND COLOR_MASK \<noteq> turn b"
    and pr: "promo = EMPTY \<or> promo = QUEEN \<or> promo = ROOK \<or> promo = BISHOP \<or> promo = KNIGHT"
    unfolding normalMove_def by blast
  have fl: "\<not> isCastle m" "\<not> isEnPassant m" by (simp_all add: m)
  note nf = normal_facts[OF pm fl]
  define p where "p = sq b f"
  define X where "X = (if promo \<noteq> EMPTY then promo OR turn b else p)"
  define b' where "b' = makeMove b m"
  have mf: "from_sq m = f" "to_sq m = t" "piece m = p" "promotion m = promo"
    by (simp_all add: m p_def)
  have pv: "validPiece p" unfolding p_def using wf_valid[OF wf on(1)] .
  have pc: "p AND COLOR_MASK = turn b" "p \<noteq> EMPTY" using pf by (simp_all add: p_def)
  have tk: "t \<noteq> whiteKingPos b" "t \<noteq> blackKingPos b"
    using playable_target[OF pl pm fl] tg by (simp_all add: mf)
  have fk: "(f = whiteKingPos b) = (p = 14)" "(f = blackKingPos b) = (p = 22)"
    using k(5,6)[OF on(1)] by (auto simp: p_def)
  have p14: "(p AND PIECE_MASK = KING \<and> turn b = WHITE) = (p = 14)"
    using king_code[OF pv] pc(1) by auto
  have p22: "(p AND PIECE_MASK = KING \<and> turn b \<noteq> WHITE) = (p = 22)"
    using king_code[OF pv] pc(1) tr by auto
  have pk: "promo \<noteq> EMPTY \<Longrightarrow> p \<noteq> 14 \<and> p \<noteq> 22"
    using nf(1) by (auto simp: mf)
  have Xv: "validPiece X"
    unfolding X_def using pv promoted_code(1)[of promo "turn b"] pr tr by auto
  have X14: "(X = 14) = (p = 14)"
    unfolding X_def using pk promoted_code(2)[of promo "turn b"] pr tr by auto
  have X22: "(X = 22) = (p = 22)"
    unfolding X_def using pk promoted_code(3)[of promo "turn b"] pr tr by auto
  have sq': "sq b' s = (if s = t then X else if s = f then EMPTY else sq b s)"
    if "isSquareOnBoard s" for s
    unfolding b'_def m X_def p_def using makeMove_normal_sq[OF len on that] .
  have wk': "whiteKingPos b' = (if p = 14 then t else whiteKingPos b)"
    unfolding b'_def by (simp add: makeMove_fields mf p14)
  have bk': "blackKingPos b' = (if p = 22 then t else blackKingPos b)"
    unfolding b'_def by (simp add: makeMove_fields mf p22)
  have cr': "castlingRights b' = updateCastlingRights (castlingRights b) f t"
    unfolding b'_def by (simp add: makeMove_fields mf)
  have tr': "turn b' = (if turn b = WHITE then BLACK else WHITE)"
    unfolding b'_def by (simp add: makeMove_fields)
  have len': "length (squares b') = 64"
    unfolding b'_def by (simp add: makeMove_fields len)
  have ep': "enPassantSquare b' =
     (if p AND PIECE_MASK = PAWN \<and> \<bar>t - f\<bar> = 16
      then f + (if turn b = WHITE then 8 else - 8) else - 1)"
    unfolding b'_def by (simp add: makeMove_fields mf)

  have v': "validPiece (sq b' s)" if "isSquareOnBoard s" for s
    using sq'[OF that] Xv wf_valid[OF wf that] by (simp add: validPiece_def)

  have epc: "enPassantConsistent b'"
  proof (cases "p AND PIECE_MASK = PAWN \<and> \<bar>t - f\<bar> = 16")
    case False
    then have "enPassantSquare b' = - 1" using ep' by auto
    then show ?thesis unfolding enPassantConsistent_def by simp
  next
    case True
    with nf(3) have d: "t = f + 2 * (if turn b = WHITE then 8 else - 8)"
      "f div 8 = (if turn b = WHITE then 1 else 6)"
      "sq b (f + (if turn b = WHITE then 8 else - 8)) = EMPTY" "promo = EMPTY"
      by (simp_all add: mf)
    have Xp: "X = p" unfolding X_def using d(4) by simp
    from tr show ?thesis
    proof
      assume w: "turn b = WHITE"
      have r: "8 \<le> f" "f < 16" using d(2) w by presburger+
      have p9: "p = 9" using pawn_code[OF pv] True pc(1) w by simp
      have o: "isSquareOnBoard (f + 8)" using r by (simp add: isSquareOnBoard_def)
      have e0: "sq b' (f + 8) = EMPTY" using sq'[OF o] d(1,3) w by simp
      have "sq b' t = 9" using sq'[OF on(2)] Xp p9 by simp
      moreover have "t = f + 8 + 8" using d(1) w by simp
      ultimately have e1: "sq b' (f + 8 + 8) = (PAWN OR WHITE)" by simp
      have E: "enPassantSquare b' = f + 8" using ep' True w by simp
      have T: "turn b' = BLACK" using tr' w by simp
      have R: "16 \<le> f + 8" "f + 8 < 24" using r by simp_all
      show ?thesis
        unfolding enPassantConsistent_def E using T R e0 e1 by blast
    next
      assume k: "turn b = BLACK"
      have r: "48 \<le> f" "f < 56" using d(2) k by presburger+
      have p17: "p = 17" using pawn_code[OF pv] True pc(1) k by simp
      have o: "isSquareOnBoard (f - 8)" using r by (simp add: isSquareOnBoard_def)
      have e0: "sq b' (f - 8) = EMPTY" using sq'[OF o] d(1,3) k by simp
      have "sq b' t = 17" using sq'[OF on(2)] Xp p17 by simp
      moreover have "t = f - 8 - 8" using d(1) k by simp
      ultimately have e1: "sq b' (f - 8 - 8) = (PAWN OR BLACK)" by simp
      have E: "enPassantSquare b' = f - 8" using ep' True k by simp
      have T: "turn b' = WHITE" using tr' k by simp
      have R: "40 \<le> f - 8" "f - 8 < 48" using r by simp_all
      show ?thesis
        unfolding enPassantConsistent_def E using T R e0 e1 by blast
    qed
  qed

  have c14: "whiteKingPos b' = s" if "isSquareOnBoard s" "sq b' s = 14" for s
    using that(2) sq'[OF that(1)] X14 wk' fk(1) k(5)[OF that(1)]
    by (auto split: if_splits)
  have c22: "blackKingPos b' = s" if "isSquareOnBoard s" "sq b' s = 22" for s
    using that(2) sq'[OF that(1)] X22 bk' fk(2) k(6)[OF that(1)]
    by (auto split: if_splits)

  have on4: "isSquareOnBoard 4" "isSquareOnBoard 60" by (simp_all add: isSquareOnBoard_def)
  have cc: "castlingConsistent b'"
  proof -
    have w: "sq b' 4 = 14" if "castlingRights b' AND (1 OR 2) \<noteq> 0"
    proof -
      from pair_in_right(1)[OF that] have "f \<noteq> 4 \<and> (castlingRights b AND 1 \<noteq> 0 \<or> castlingRights b AND 2 \<noteq> 0)"
        unfolding cr' using ucr_WK ucr_WQ by blast
      then have "f \<noteq> 4" "sq b 4 = 14" "whiteKingPos b = 4"
        using wf_castling_king(1)[OF wf] by auto
      then show ?thesis using sq'[OF on4(1)] tk(1) by auto
    qed
    have k: "sq b' 60 = 22" if "castlingRights b' AND (4 OR 8) \<noteq> 0"
    proof -
      from pair_in_right(2)[OF that] have "f \<noteq> 60 \<and> (castlingRights b AND 4 \<noteq> 0 \<or> castlingRights b AND 8 \<noteq> 0)"
        unfolding cr' using ucr_BK ucr_BQ by blast
      then have "f \<noteq> 60" "sq b 60 = 22" "blackKingPos b = 60"
        using wf_castling_king(2)[OF wf] by auto
      then show ?thesis using sq'[OF on4(2)] tk(2) by auto
    qed
    show ?thesis unfolding castlingConsistent_def using w k by auto
  qed

  have wf': "wellFormed b'"
    by (rule wellFormedI[OF len' v' _ epc c14 c22 cc]) (use tr tr' in auto)

  have kp': "kingsPresent b'"
  proof -
    have "sq b' (whiteKingPos b') = 14" "isSquareOnBoard (whiteKingPos b')"
      using wk' sq'[OF on(2)] sq'[OF k(1)] X14 tk(1) fk(1) k(1,2) on(2) by auto
    moreover have "sq b' (blackKingPos b') = 22" "isSquareOnBoard (blackKingPos b')"
      using bk' sq'[OF on(2)] sq'[OF k(3)] X22 tk(2) fk(2) k(3,4) on(2) by auto
    ultimately show ?thesis by (simp add: kingsPresent_def)
  qed

  have geo: "t - f \<in> set QUEEN_DIRECTIONS" "\<bar>f mod 8 - t mod 8\<bar> \<le> 1" if "p = 14 \<or> p = 22"
    using nf(2) that by (auto simp: mf)

  have rh': "rookHomesKingFree b'"
  proof -
    have a: "blackKingPos b' \<noteq> 0" if "castlingRights b' AND 2 \<noteq> 0"
      using ucr_WQ[OF that[unfolded cr']] rh bk' by (auto simp: rookHomesKingFree_def)
    have b: "blackKingPos b' \<noteq> 7" if "castlingRights b' AND 1 \<noteq> 0"
    proof
      assume e: "blackKingPos b' = 7"
      from ucr_WK[OF that[unfolded cr']] have u: "castlingRights b AND 1 \<noteq> 0"
        "f = 0 \<or> t = 0 \<or> (f \<noteq> 7 \<and> t \<noteq> 7)" by simp_all
      from u(1) rh have "blackKingPos b \<noteq> 7" by (auto simp: rookHomesKingFree_def)
      with e bk' have pt: "p = 22" "t = 7" by (auto split: if_splits)
      with u(2) have "f = 0" by simp
      with geo(2) pt show False by simp
    qed
    have c: "whiteKingPos b' \<noteq> 56" if "castlingRights b' AND 8 \<noteq> 0"
    proof
      assume e: "whiteKingPos b' = 56"
      from ucr_BQ[OF that[unfolded cr']] have u: "castlingRights b AND 8 \<noteq> 0"
        "f = 0 \<or> t = 0 \<or> f = 7 \<or> t = 7 \<or> (f \<noteq> 56 \<and> t \<noteq> 56)" by simp_all
      from u(1) rh have "whiteKingPos b \<noteq> 56" by (auto simp: rookHomesKingFree_def)
      with e wk' have pt: "p = 14" "t = 56" by (auto split: if_splits)
      with u(2) have "f = 0 \<or> f = 7" by simp
      with geo(1) pt not_queen_dir show False by auto
    qed
    have d: "whiteKingPos b' \<noteq> 63" if "castlingRights b' AND 4 \<noteq> 0"
    proof
      assume e: "whiteKingPos b' = 63"
      from ucr_BK[OF that[unfolded cr']] have u: "castlingRights b AND 4 \<noteq> 0"
        "f = 0 \<or> t = 0 \<or> f = 7 \<or> t = 7 \<or> f = 56 \<or> t = 56 \<or> (f \<noteq> 63 \<and> t \<noteq> 63)"
        by simp_all
      from u(1) rh have "whiteKingPos b \<noteq> 63" by (auto simp: rookHomesKingFree_def)
      with e wk' have pt: "p = 14" "t = 63" by (auto split: if_splits)
      with u(2) have "f = 0 \<or> f = 7 \<or> f = 56" by simp
      with geo pt not_queen_dir show False by auto
    qed
    show ?thesis unfolding rookHomesKingFree_def using a b c d by blast
  qed
  show ?thesis using wf' kp' rh' unfolding b'_def by simp
qed

lemma makeMove_enPassant_sq:
  assumes "length (squares b) = 64" "isSquareOnBoard f" "isSquareOnBoard t"
    "isSquareOnBoard (t - (if turn b = WHITE then 8 else - 8))" "isSquareOnBoard s"
  shows "sq (makeMove b (createMove b f t EMPTY True False)) s =
     (if s = t - (if turn b = WHITE then 8 else - 8) then EMPTY
      else if s = t then sq b f else if s = f then EMPTY else sq b s)"
  using assms
  by (simp add: makeMove_def createMove_def Let_def sq_def nth_upd_on)

lemma playable_enPassant:
  assumes pl: "playable b" and nm: "enPassantMove b m"
  shows "wellFormed (makeMove b m) \<and> kingsPresent (makeMove b m) \<and>
         rookHomesKingFree (makeMove b m)"
proof -
  from pl have wf: "wellFormed b" and rh: "rookHomesKingFree b"
    by (simp_all add: playable_def)
  note k = playable_kings[OF pl]
  note tr = wf_turn[OF wf]
  note len = wf_length[OF wf]
  from nm obtain f t where m: "m = createMove b f t EMPTY True False"
    and on: "isSquareOnBoard f" "isSquareOnBoard t" and t: "t = enPassantSquare b"
    and pf: "sq b f AND PIECE_MASK = PAWN" "sq b f AND COLOR_MASK = turn b"
    and d: "t = f + (if turn b = WHITE then 8 else - 8) + 1 \<or>
            t = f + (if turn b = WHITE then 8 else - 8) - 1"
    unfolding enPassantMove_def by blast
  define p where "p = sq b f"
  define c where "c = t - (if turn b = WHITE then 8 else - 8)"
  define b' where "b' = makeMove b m"
  have mf: "from_sq m = f" "to_sq m = t" "piece m = p" by (simp_all add: m p_def)
  have pv: "validPiece p" unfolding p_def using wf_valid[OF wf on(1)] .
  have pp: "p = 9 \<or> p = 17"
    using pawn_code[OF pv] pf tr by (auto simp: p_def)
  have epc: "enPassantConsistent b" using wf by (simp add: wellFormed_def)
  have tn: "t \<noteq> - 1" using on by (auto simp: isSquareOnBoard_def)
  have e: "sq b t = EMPTY" "sq b c = 9 \<or> sq b c = 17" "isSquareOnBoard c"
    using epc tn t unfolding enPassantConsistent_def c_def isSquareOnBoard_def by auto
  have sq': "sq b' s = (if s = c then EMPTY else if s = t then p else if s = f then EMPTY else sq b s)"
    if "isSquareOnBoard s" for s
    unfolding b'_def m c_def p_def
    using makeMove_enPassant_sq[OF len on e(3)[unfolded c_def] that] .
  have kind: "p AND PIECE_MASK \<noteq> KING" using pp by auto
  have far: "\<bar>t - f\<bar> \<noteq> 16" using d by (cases "turn b = WHITE") auto
  have wk': "whiteKingPos b' = whiteKingPos b" "blackKingPos b' = blackKingPos b"
    unfolding b'_def using kind by (simp_all add: makeMove_fields mf)
  have cr': "castlingRights b' = updateCastlingRights (castlingRights b) f t"
    unfolding b'_def by (simp add: makeMove_fields mf)
  have tr': "turn b' = (if turn b = WHITE then BLACK else WHITE)"
    unfolding b'_def by (simp add: makeMove_fields)
  have len': "length (squares b') = 64"
    unfolding b'_def by (simp add: makeMove_fields len)
  have ep': "enPassantSquare b' = - 1"
    unfolding b'_def using far by (simp add: makeMove_fields mf)
  have keep: "sq b' s = sq b s" if "isSquareOnBoard s" "sq b s = 14 \<or> sq b s = 22" for s
    using sq'[OF that(1)] that(2) e(1,2) pp by (auto simp: p_def)
  have orig: "sq b s = sq b' s" if "isSquareOnBoard s" "sq b' s = 14 \<or> sq b' s = 22" for s
    using sq'[OF that(1)] that(2) pp by (auto split: if_splits)
  have v': "validPiece (sq b' s)" if "isSquareOnBoard s" for s
    using sq'[OF that] pv wf_valid[OF wf that] by (simp add: validPiece_def)
  have epc': "enPassantConsistent b'" unfolding enPassantConsistent_def ep' by simp
  have c14: "whiteKingPos b' = s" if "isSquareOnBoard s" "sq b' s = 14" for s
    using orig[OF that(1)] that(2) k(5)[OF that(1)] wk' by simp
  have c22: "blackKingPos b' = s" if "isSquareOnBoard s" "sq b' s = 22" for s
    using orig[OF that(1)] that(2) k(6)[OF that(1)] wk' by simp
  have on4: "isSquareOnBoard 4" "isSquareOnBoard 60" by (simp_all add: isSquareOnBoard_def)
  have cc: "castlingConsistent b'"
  proof -
    have w: "sq b' 4 = 14" if "castlingRights b' AND (1 OR 2) \<noteq> 0"
    proof -
      from pair_in_right(1)[OF that]
      have "castlingRights b AND 1 \<noteq> 0 \<or> castlingRights b AND 2 \<noteq> 0"
        unfolding cr' using ucr_WK ucr_WQ by blast
      then have "sq b 4 = 14" using wf_castling_king(1)[OF wf] by auto
      then show ?thesis using keep[OF on4(1)] by simp
    qed
    have k: "sq b' 60 = 22" if "castlingRights b' AND (4 OR 8) \<noteq> 0"
    proof -
      from pair_in_right(2)[OF that]
      have "castlingRights b AND 4 \<noteq> 0 \<or> castlingRights b AND 8 \<noteq> 0"
        unfolding cr' using ucr_BK ucr_BQ by blast
      then have "sq b 60 = 22" using wf_castling_king(2)[OF wf] by auto
      then show ?thesis using keep[OF on4(2)] by simp
    qed
    show ?thesis unfolding castlingConsistent_def using w k by auto
  qed
  have wf': "wellFormed b'"
    by (rule wellFormedI[OF len' v' _ epc' c14 c22 cc]) (use tr tr' in auto)
  have kp': "kingsPresent b'"
    unfolding kingsPresent_def wk' using keep[OF k(1)] keep[OF k(3)] k(1-4) by simp
  have rh': "rookHomesKingFree b'"
    unfolding rookHomesKingFree_def wk' cr'
    using rh ucr_WK[of "castlingRights b" f t] ucr_WQ[of "castlingRights b" f t]
      ucr_BK[of "castlingRights b" f t] ucr_BQ[of "castlingRights b" f t]
    unfolding rookHomesKingFree_def by blast
  show ?thesis using wf' kp' rh' unfolding b'_def by simp
qed

lemma nth_upd_lit:
  "isSquareOnBoard s \<Longrightarrow> n < length xs \<Longrightarrow>
   (xs[n := v]) ! nat s = (if s = int n then v else xs ! nat s)"
  by (auto simp: isSquareOnBoard_def nth_list_update)

lemma makeMove_castle_sq:
  assumes "length (squares b) = 64" "isSquareOnBoard s"
  shows "sq (makeMove b (createMove b 4 6 EMPTY False True)) s =
      (if s = 7 then EMPTY else if s = 5 then sq b 7 else if s = 6 then sq b 4
       else if s = 4 then EMPTY else sq b s)"
    and "sq (makeMove b (createMove b 4 2 EMPTY False True)) s =
      (if s = 0 then EMPTY else if s = 3 then sq b 0 else if s = 2 then sq b 4
       else if s = 4 then EMPTY else sq b s)"
    and "sq (makeMove b (createMove b 60 62 EMPTY False True)) s =
      (if s = 63 then EMPTY else if s = 61 then sq b 63 else if s = 62 then sq b 60
       else if s = 60 then EMPTY else sq b s)"
    and "sq (makeMove b (createMove b 60 58 EMPTY False True)) s =
      (if s = 56 then EMPTY else if s = 59 then sq b 56 else if s = 58 then sq b 60
       else if s = 60 then EMPTY else sq b s)"
  using assms
  by (simp_all add: makeMove_def createMove_def Let_def castleRook_def sq_def nth_upd_lit)

lemma ucr_king_home:
  "updateCastlingRights cr 4 t AND (1 OR 2) = 0"
  "updateCastlingRights cr 60 t AND (4 OR 8) = 0"
  using pair_in_right(1)[of "updateCastlingRights cr 4 t"]
    pair_in_right(2)[of "updateCastlingRights cr 60 t"]
    ucr_WK[of cr 4 t] ucr_WQ[of cr 4 t] ucr_BK[of cr 60 t] ucr_BQ[of cr 60 t]
  by blast+

lemma playable_castle_generic:
  assumes pl: "playable b"
    and sq': "\<And>s. isSquareOnBoard s \<Longrightarrow>
       sq b' s = (if s = rf then EMPTY else if s = rt then sq b rf else if s = kt then K
                  else if s = kf then EMPTY else sq b s)"
    and on: "isSquareOnBoard kf" "isSquareOnBoard kt" "isSquareOnBoard rf" "isSquareOnBoard rt"
    and K: "sq b kf = K" "K = 14 \<or> K = 22"
    and empty: "sq b kt = EMPTY" "sq b rt = EMPTY"
    and rook: "sq b rf \<noteq> 14" "sq b rf \<noteq> 22"
    and len': "length (squares b') = 64"
    and tr': "turn b' = WHITE \<or> turn b' = BLACK"
    and ep': "enPassantSquare b' = - 1"
    and wk': "whiteKingPos b' = (if K = 14 then kt else whiteKingPos b)"
    and bk': "blackKingPos b' = (if K = 22 then kt else blackKingPos b)"
    and crW: "K = 14 \<Longrightarrow> castlingRights b' AND (1 OR 2) = 0"
    and crB: "K = 22 \<Longrightarrow> castlingRights b' AND (4 OR 8) = 0"
    and sub: "\<And>flag. castlingRights b' AND flag \<noteq> 0 \<Longrightarrow> flag = 1 \<or> flag = 2 \<or> flag = 4 \<or> flag = 8 \<Longrightarrow>
       castlingRights b AND flag \<noteq> 0"
    and corner: "kt \<noteq> 0" "kt \<noteq> 7" "kt \<noteq> 56" "kt \<noteq> 63"
    and dist: "kt \<noteq> rf" "kt \<noteq> rt"
  shows "wellFormed b' \<and> kingsPresent b' \<and> rookHomesKingFree b'"
proof -
  from pl have wf: "wellFormed b" and rh: "rookHomesKingFree b"
    by (simp_all add: playable_def)
  note k = playable_kings[OF pl]
  have Kv: "validPiece K" using K(2) by (auto simp: validPiece_def)
  have v': "validPiece (sq b' s)" if "isSquareOnBoard s" for s
    using sq'[OF that] Kv wf_valid[OF wf that] wf_valid[OF wf on(3)]
    by (simp add: validPiece_def)
  have epc': "enPassantConsistent b'" unfolding enPassantConsistent_def ep' by simp
  have kfk: "(kf = whiteKingPos b) = (K = 14)" "(kf = blackKingPos b) = (K = 22)"
    using k(5,6)[OF on(1)] K(1) by auto
  have c14: "whiteKingPos b' = s" if "isSquareOnBoard s" "sq b' s = 14" for s
    using that(2) sq'[OF that(1)] rook(1) wk' kfk(1) k(5)[OF that(1)] K(2)
    by (auto split: if_splits)
  have c22: "blackKingPos b' = s" if "isSquareOnBoard s" "sq b' s = 22" for s
    using that(2) sq'[OF that(1)] rook(2) bk' kfk(2) k(6)[OF that(1)] K(2)
    by (auto split: if_splits)
  have keep: "sq b' s = sq b s" if "isSquareOnBoard s" "sq b s = 14 \<or> sq b s = 22" "s \<noteq> kf" for s
    using sq'[OF that(1)] that(2,3) empty rook by auto
  have on4: "isSquareOnBoard 4" "isSquareOnBoard 60" by (simp_all add: isSquareOnBoard_def)
  have cc: "castlingConsistent b'"
  proof -
    have w: "sq b' 4 = 14" if "castlingRights b' AND (1 OR 2) \<noteq> 0"
    proof -
      from that crW have K22: "K = 22" using K(2) by auto
      from pair_in_right(1)[OF that] sub
      have "castlingRights b AND 1 \<noteq> 0 \<or> castlingRights b AND 2 \<noteq> 0" by blast
      then have "sq b 4 = 14" using wf_castling_king(1)[OF wf] by auto
      moreover from this have "4 \<noteq> kf" using K(1) K22 by auto
      ultimately show ?thesis using keep[OF on4(1)] by simp
    qed
    have k: "sq b' 60 = 22" if "castlingRights b' AND (4 OR 8) \<noteq> 0"
    proof -
      from that crB have K14: "K = 14" using K(2) by auto
      from pair_in_right(2)[OF that] sub
      have "castlingRights b AND 4 \<noteq> 0 \<or> castlingRights b AND 8 \<noteq> 0" by blast
      then have "sq b 60 = 22" using wf_castling_king(2)[OF wf] by auto
      moreover from this have "60 \<noteq> kf" using K(1) K14 by auto
      ultimately show ?thesis using keep[OF on4(2)] by simp
    qed
    show ?thesis unfolding castlingConsistent_def using w k by auto
  qed
  have wf': "wellFormed b'"
    by (rule wellFormedI[OF len' v' tr' epc' c14 c22 cc])
  have kt: "sq b' kt = K" using sq'[OF on(2)] dist by simp
  have kp': "kingsPresent b'"
  proof -
    have "sq b' (whiteKingPos b') = 14 \<and> isSquareOnBoard (whiteKingPos b')"
    proof (cases "K = 14")
      case True
      then show ?thesis using wk' kt on(2) by simp
    next
      case False
      then have "whiteKingPos b \<noteq> kf" using kfk(1) by simp
      then show ?thesis using False wk' keep[OF k(1)] k(1,2) by simp
    qed
    moreover have "sq b' (blackKingPos b') = 22 \<and> isSquareOnBoard (blackKingPos b')"
    proof (cases "K = 22")
      case True
      then show ?thesis using bk' kt on(2) by simp
    next
      case False
      then have "blackKingPos b \<noteq> kf" using kfk(2) by simp
      then show ?thesis using False bk' keep[OF k(3)] k(3,4) by simp
    qed
    ultimately show ?thesis by (simp add: kingsPresent_def)
  qed
  have rh': "rookHomesKingFree b'"
  proof -
    have a: "blackKingPos b' \<noteq> 0" if "castlingRights b' AND 2 \<noteq> 0"
      using sub[OF that] rh bk' corner by (auto simp: rookHomesKingFree_def)
    have b: "blackKingPos b' \<noteq> 7" if "castlingRights b' AND 1 \<noteq> 0"
      using sub[OF that] rh bk' corner by (auto simp: rookHomesKingFree_def)
    have c: "whiteKingPos b' \<noteq> 56" if "castlingRights b' AND 8 \<noteq> 0"
      using sub[OF that] rh wk' corner by (auto simp: rookHomesKingFree_def)
    have d: "whiteKingPos b' \<noteq> 63" if "castlingRights b' AND 4 \<noteq> 0"
      using sub[OF that] rh wk' corner by (auto simp: rookHomesKingFree_def)
    show ?thesis unfolding rookHomesKingFree_def using a b c d by blast
  qed
  show ?thesis using wf' kp' rh' by simp
qed

lemma ucr_sub:
  assumes "updateCastlingRights cr f t AND flag \<noteq> 0" "flag = 1 \<or> flag = 2 \<or> flag = 4 \<or> flag = 8"
  shows "cr AND flag \<noteq> 0"
  using assms ucr_WK[of cr f t] ucr_WQ[of cr f t] ucr_BK[of cr f t] ucr_BQ[of cr f t]
  by blast

lemma playable_castle:
  assumes pl: "playable b" and nm: "castleMove b m"
  shows "wellFormed (makeMove b m) \<and> kingsPresent (makeMove b m) \<and>
         rookHomesKingFree (makeMove b m)"
proof -
  from pl have wf: "wellFormed b" and rh: "rookHomesKingFree b"
    by (simp_all add: playable_def)
  note k = playable_kings[OF pl]
  note tr = wf_turn[OF wf]
  note len = wf_length[OF wf]
  have len': "length (squares (makeMove b m)) = 64" by (simp add: makeMove_fields len)
  have tr': "turn (makeMove b m) = WHITE \<or> turn (makeMove b m) = BLACK"
    by (simp add: makeMove_fields)
  have onb: "isSquareOnBoard 0" "isSquareOnBoard 2" "isSquareOnBoard 3" "isSquareOnBoard 4"
    "isSquareOnBoard 5" "isSquareOnBoard 6" "isSquareOnBoard 7" "isSquareOnBoard 56"
    "isSquareOnBoard 58" "isSquareOnBoard 59" "isSquareOnBoard 60" "isSquareOnBoard 61"
    "isSquareOnBoard 62" "isSquareOnBoard 63"
    by (simp_all add: isSquareOnBoard_def)
  from nm consider
    (wk) "turn b = WHITE" "m = createMove b 4 6 EMPTY False True"
      "castlingRights b AND 1 \<noteq> 0" "sq b 5 = EMPTY" "sq b 6 = EMPTY"
  | (wq) "turn b = WHITE" "m = createMove b 4 2 EMPTY False True"
      "castlingRights b AND 2 \<noteq> 0" "sq b 3 = EMPTY" "sq b 2 = EMPTY"
  | (bk) "turn b \<noteq> WHITE" "m = createMove b 60 62 EMPTY False True"
      "castlingRights b AND 4 \<noteq> 0" "sq b 61 = EMPTY" "sq b 62 = EMPTY"
  | (bq) "turn b \<noteq> WHITE" "m = createMove b 60 58 EMPTY False True"
      "castlingRights b AND 8 \<noteq> 0" "sq b 59 = EMPTY" "sq b 58 = EMPTY"
    unfolding castleMove_def by blast
  then show ?thesis
  proof cases
    case wk
    have h: "sq b 4 = 14" "whiteKingPos b = 4" using wf_castling_king(1)[OF wf] wk(3) by auto
    have r: "blackKingPos b \<noteq> 7" using rh wk(3) by (auto simp: rookHomesKingFree_def)
    have r': "sq b 7 \<noteq> 14" "sq b 7 \<noteq> 22" using k(5,6)[OF onb(7)] h(2) r by auto
    show ?thesis
    proof (rule playable_castle_generic[OF pl, where kf = 4 and kt = 6 and rf = 7 and rt = 5
          and K = 14])
      show "\<And>s. isSquareOnBoard s \<Longrightarrow> sq (makeMove b m) s =
          (if s = 7 then EMPTY else if s = 5 then sq b 7 else if s = 6 then 14
           else if s = 4 then EMPTY else sq b s)"
        unfolding wk(2) using makeMove_castle_sq(1)[OF len] h(1) by simp
      show "castlingRights (makeMove b m) AND flag \<noteq> 0 \<Longrightarrow>
          flag = 1 \<or> flag = 2 \<or> flag = 4 \<or> flag = 8 \<Longrightarrow> castlingRights b AND flag \<noteq> 0" for flag
        unfolding makeMove_fields by (rule ucr_sub)
    qed (use onb h r' wk len' tr' ucr_king_home in
        \<open>simp_all add: makeMove_fields\<close>)
  next
    case wq
    have h: "sq b 4 = 14" "whiteKingPos b = 4" using wf_castling_king(1)[OF wf] wq(3) by auto
    have r: "blackKingPos b \<noteq> 0" using rh wq(3) by (auto simp: rookHomesKingFree_def)
    have r': "sq b 0 \<noteq> 14" "sq b 0 \<noteq> 22" using k(5,6)[OF onb(1)] h(2) r by auto
    show ?thesis
    proof (rule playable_castle_generic[OF pl, where kf = 4 and kt = 2 and rf = 0 and rt = 3
          and K = 14])
      show "\<And>s. isSquareOnBoard s \<Longrightarrow> sq (makeMove b m) s =
          (if s = 0 then EMPTY else if s = 3 then sq b 0 else if s = 2 then 14
           else if s = 4 then EMPTY else sq b s)"
        unfolding wq(2) using makeMove_castle_sq(2)[OF len] h(1) by simp
      show "castlingRights (makeMove b m) AND flag \<noteq> 0 \<Longrightarrow>
          flag = 1 \<or> flag = 2 \<or> flag = 4 \<or> flag = 8 \<Longrightarrow> castlingRights b AND flag \<noteq> 0" for flag
        unfolding makeMove_fields by (rule ucr_sub)
    qed (use onb h r' wq len' tr' ucr_king_home in
        \<open>simp_all add: makeMove_fields\<close>)
  next
    case bk
    have tb: "turn b = BLACK" using tr bk(1) by simp
    have h: "sq b 60 = 22" "blackKingPos b = 60" using wf_castling_king(2)[OF wf] bk(3) by auto
    have r: "whiteKingPos b \<noteq> 63" using rh bk(3) by (auto simp: rookHomesKingFree_def)
    have r': "sq b 63 \<noteq> 14" "sq b 63 \<noteq> 22" using k(5,6)[OF onb(14)] h(2) r by auto
    show ?thesis
    proof (rule playable_castle_generic[OF pl, where kf = 60 and kt = 62 and rf = 63 and rt = 61
          and K = 22])
      show "\<And>s. isSquareOnBoard s \<Longrightarrow> sq (makeMove b m) s =
          (if s = 63 then EMPTY else if s = 61 then sq b 63 else if s = 62 then 22
           else if s = 60 then EMPTY else sq b s)"
        unfolding bk(2) using makeMove_castle_sq(3)[OF len] h(1) by simp
      show "castlingRights (makeMove b m) AND flag \<noteq> 0 \<Longrightarrow>
          flag = 1 \<or> flag = 2 \<or> flag = 4 \<or> flag = 8 \<Longrightarrow> castlingRights b AND flag \<noteq> 0" for flag
        unfolding makeMove_fields by (rule ucr_sub)
    qed (use onb h r' bk tb len' tr' ucr_king_home in
        \<open>simp_all add: makeMove_fields\<close>)
  next
    case bq
    have tb: "turn b = BLACK" using tr bq(1) by simp
    have h: "sq b 60 = 22" "blackKingPos b = 60" using wf_castling_king(2)[OF wf] bq(3) by auto
    have r: "whiteKingPos b \<noteq> 56" using rh bq(3) by (auto simp: rookHomesKingFree_def)
    have r': "sq b 56 \<noteq> 14" "sq b 56 \<noteq> 22" using k(5,6)[OF onb(8)] h(2) r by auto
    show ?thesis
    proof (rule playable_castle_generic[OF pl, where kf = 60 and kt = 58 and rf = 56 and rt = 59
          and K = 22])
      show "\<And>s. isSquareOnBoard s \<Longrightarrow> sq (makeMove b m) s =
          (if s = 56 then EMPTY else if s = 59 then sq b 56 else if s = 58 then 22
           else if s = 60 then EMPTY else sq b s)"
        unfolding bq(2) using makeMove_castle_sq(4)[OF len] h(1) by simp
      show "castlingRights (makeMove b m) AND flag \<noteq> 0 \<Longrightarrow>
          flag = 1 \<or> flag = 2 \<or> flag = 4 \<or> flag = 8 \<Longrightarrow> castlingRights b AND flag \<noteq> 0" for flag
        unfolding makeMove_fields by (rule ucr_sub)
    qed (use onb h r' bq tb len' tr' ucr_king_home in
        \<open>simp_all add: makeMove_fields\<close>)
  qed
qed

lemma legal_move_playable:
  assumes pl: "playable b" and sf: "isSafeInteger (fullMoveNumber b)"
    and lg: "m \<in> set (fst (getLegalMoves b))"
  shows "playable (makeMove b m)"
proof -
  from pl have wf: "wellFormed b" by (simp add: playable_def)
  from lg have pm: "m \<in> set (pseudoLegalMoves b)"
    and nc: "\<not> isInCheck (makeMove b m) (turn b)"
    by (simp_all add: getLegalMoves_wellFormed[OF wf sf])
  have g: "generatedMove b m" using pm by (rule pseudoLegalMoves_generated)
  have three: "wellFormed (makeMove b m) \<and> kingsPresent (makeMove b m) \<and>
      rookHomesKingFree (makeMove b m)"
    using g playable_normal[OF pl pm] playable_enPassant[OF pl] playable_castle[OF pl]
    unfolding generatedMove_def by blast
  have "(if turn (makeMove b m) = WHITE then BLACK else WHITE) = turn b"
    using wf_turn[OF wf] by (auto simp: makeMove_fields)
  then show ?thesis unfolding playable_def using three nc by simp
qed

lemma playable_initial: "playable setupInitialPosition"
  by code_simp

lemma playedFrom_playable:
  "playedFrom start b \<Longrightarrow> playable start \<Longrightarrow> playable b"
  by (induction rule: playedFrom.induct) (auto intro: legal_move_playable)

lemma reachable_wellFormed: "reachable b \<Longrightarrow> wellFormed b"
  using playedFrom_playable[of setupInitialPosition b] playable_initial
  by (simp add: reachable_def playable_def)

lemma afterE4_reachable: "reachable afterE4"
  unfolding reachable_def afterE4_def
  by (rule playedFrom.move[OF playedFrom.start]) code_simp+

section \<open>The round trip of a legal move\<close>



text \<open>
  Every reachable position is well formed, so the round trip holds on every reachable
  position whose fullmove number is a safe integer.
\<close>

lemma reachable_round_trip:
  "reachable b \<Longrightarrow> isSafeInteger (fullMoveNumber b) \<Longrightarrow>
   m \<in> set (fst (getLegalMoves b)) \<Longrightarrow>
   undoMove (makeMove b m) = (Some m, b)"
  by (simp add: undo_make_generated legal_generated reachable_wellFormed)




section \<open>A position with legal moves and no best move\<close>

lemma queenWall_loaded:
  "loadFromFen setupInitialPosition
     ''QQQQQQQQ/QQQQQQQQ/QQQQQQQQ/QQQQQQQQ/QQQQQQQQ/PPPPPPPP/8/K6k b - - 0 1''
   = Loaded queenWall"
  by code_simp

lemma queenWall_not_in_book: "OPENING_BOOK (toFen queenWall) = None"
  by code_simp

lemma queenWall_legal_moves:
  "map moveToUci (fst (getLegalMoves queenWall)) = [''h1g2'', ''h1h2'', ''h1g1'']"
  by code_simp

lemma queenWall_search:
  "(case search (Suc n) now deep
       \<lparr>the_board = queenWall, timeLimit = limit, maxDepth = md, evaluations = 0,
        nodesSearched = 0, startTime = t0, searchAborted = False, ttable = tt,
        historyTable = (\<lambda>i. 0), killerMoves = (\<lambda>i. None), clockReads = reads\<rparr> 1 of
      None \<Rightarrow> False
    | Some r \<Rightarrow> fst r = (- 30000, None) \<and> \<not> searchAborted (snd r))"
  by code_simp

lemma deepen_aborted_at_first_depth:
  "search fuel now deep st depth = Some r \<Longrightarrow> searchAborted (snd r) \<Longrightarrow>
   deepen fuel now deep (depth # depths) None st = Some (None, snd r)"
  by simp

text \<open>
  C6, at the position \<open>queenWall\<close>, for every time limit, every maximal depth of at least
  1, every clock and every deeper search: black has the three legal moves h1g2, h1h2 and
  h1g1, each is answered by a quiescence search whose stand-pat score is at least 30000
  and which therefore returns \<open>beta\<close> = 30000, so that no root move scores above the
  initial \<open>bestScore\<close> of -30000; the root search returns the score -30000 with no move,
  the driver takes the score for a mate and stops, and \<open>getBestMove\<close> returns \<open>null\<close>.
\<close>

theorem getBestMove_none_with_legal_moves:
  "map_option fst
     (getBestMove (Suc n) now random deep (st\<lparr>the_board := queenWall, maxDepth := 1 + int k\<rparr>))
     = Some None \<and>
   map moveToUci (fst (getLegalMoves queenWall)) = [''h1g2'', ''h1h2'', ''h1g1'']"
proof -
  obtain b lim md ev ns t0 ab tt h km rd where
    st: "st = \<lparr>the_board = b, timeLimit = lim, maxDepth = md, evaluations = ev,
        nodesSearched = ns, startTime = t0, searchAborted = ab, ttable = tt,
        historyTable = h, killerMoves = km, clockReads = rd\<rparr>"
    by (cases st) auto
  let ?st2 = "\<lparr>the_board = queenWall, timeLimit = lim, maxDepth = 1 + int k, evaluations = 0,
        nodesSearched = 0, startTime = now rd, searchAborted = False, ttable = tt,
        historyTable = (\<lambda>i. 0), killerMoves = (\<lambda>i. None), clockReads = rd + 1\<rparr>"
  obtain r where r: "search (Suc n) now deep ?st2 1 = Some r" "fst r = (- 30000, None)"
      "\<not> searchAborted (snd r)"
    using queenWall_search [of n now deep lim "1 + int k" "now rd" tt "rd + 1"]
    by (auto split: option.splits)
  have u: "[1..1 + int k] = 1 # [2..1 + int k]"
    by (simp add: upto_rec1)
  have "map_option fst
     (getBestMove (Suc n) now random deep (st\<lparr>the_board := queenWall, maxDepth := 1 + int k\<rparr>))
     = Some None"
    using r by (simp add: st getBestMove_def queenWall_not_in_book u Let_def)
  then show ?thesis using queenWall_legal_moves by simp
qed

end
